theory Spec2Isabelle
  imports Complex_Main "HOL-Library.Multiset" "HOL-Library.Log_Nat"
begin

text \<open>
  A shallow embedding of the dsa-visualizer sources: the matrix-chain dynamic programme
  and its parenthesisation trees, the two tree layout functions, and the instrumented
  Red-Black tree engine.  Definitions come first, section by section; the lemmas and
  the numbered claims follow.
\<close>

section \<open>Matrix-chain ordering (src/core/MatrixChain.ts and unnamed/part_004)\<close>

text \<open>
  A JavaScript number is an IEEE 754 double: a finite value, \<open>Infinity\<close>,
  \<open>-Infinity\<close> or \<open>NaN\<close>.  A finite double is carried by the rational it denotes;
  the result of an operation is the exact result rounded to the nearest double, ties
  to even, with 53 significant bits, the least exponent \<open>-1074\<close> and overflow to an
  infinity from \<open>2 ^ 1024\<close> on.  The sign of zero is not tracked: \<open>+\<close>, \<open>*\<close> and
  \<open><\<close> do not tell \<open>-0\<close> from \<open>0\<close> except in the sign of a zero result.
\<close>

datatype jsnum = Num rat | Infinity | NegInfinity | NaN

text \<open>\<open>2 ^ e\<close> for an integer exponent.\<close>

definition pow2 :: "int \<Rightarrow> rat" where
  "pow2 e = (if 0 \<le> e then 2 ^ nat e else 1 / 2 ^ nat (- e))"

text \<open>For \<open>a > 0\<close>, the integer \<open>L\<close> with \<open>2 ^ L \<le> a < 2 ^ (L + 1)\<close>.\<close>

definition ilog2 :: "rat \<Rightarrow> int" where
  "ilog2 a =
     (case quotient_of a of
        (n, d) \<Rightarrow> (let k = bitlen n - bitlen d in if pow2 k \<le> a then k else k - 1))"

text \<open>Rounding of a non-negative rational to the nearest integer, ties to even.\<close>

definition round_even :: "rat \<Rightarrow> int" where
  "round_even q =
     (let f = \<lfloor>q\<rfloor>; r = q - of_int f
      in if r < 1 / 2 then f else if 1 / 2 < r then f + 1 else if even f then f else f + 1)"

text \<open>Rounding of an exact result to a double.\<close>

definition to_double :: "rat \<Rightarrow> jsnum" where
  "to_double x =
     (if x = 0 then Num 0
      else (let a = \<bar>x\<bar>;
                e = max (ilog2 a - 52) (- 1074);
                v = of_int (round_even (a / pow2 e)) * pow2 e
            in if pow2 1024 \<le> v then (if 0 < x then Infinity else NegInfinity)
               else Num (if 0 < x then v else - v)))"

fun js_neg :: "jsnum \<Rightarrow> jsnum" where
  "js_neg (Num a) = Num (- a)"
| "js_neg Infinity = NegInfinity"
| "js_neg NegInfinity = Infinity"
| "js_neg NaN = NaN"

text \<open>\<open>x + y\<close>\<close>

fun js_add :: "jsnum \<Rightarrow> jsnum \<Rightarrow> jsnum" where
  "js_add NaN y = NaN"
| "js_add x NaN = NaN"
| "js_add (Num a) (Num b) = to_double (a + b)"
| "js_add Infinity NegInfinity = NaN"
| "js_add NegInfinity Infinity = NaN"
| "js_add Infinity y = Infinity"
| "js_add x Infinity = Infinity"
| "js_add NegInfinity y = NegInfinity"
| "js_add x NegInfinity = NegInfinity"

text \<open>\<open>x * y\<close>: an infinity times zero is \<open>NaN\<close>; otherwise the sign rule.\<close>

fun js_mul :: "jsnum \<Rightarrow> jsnum \<Rightarrow> jsnum" where
  "js_mul NaN y = NaN"
| "js_mul x NaN = NaN"
| "js_mul (Num a) (Num b) = to_double (a * b)"
| "js_mul (Num a) y = (if a = 0 then NaN else if 0 < a then y else js_neg y)"
| "js_mul x (Num b) = (if b = 0 then NaN else if 0 < b then x else js_neg x)"
| "js_mul x y = (if x = y then Infinity else NegInfinity)"

text \<open>\<open>x < y\<close>: false whenever an operand is \<open>NaN\<close>.\<close>

fun js_less :: "jsnum \<Rightarrow> jsnum \<Rightarrow> bool" where
  "js_less NaN y = False"
| "js_less x NaN = False"
| "js_less (Num a) (Num b) = (a < b)"
| "js_less x NegInfinity = False"
| "js_less NegInfinity y = True"
| "js_less Infinity y = False"
| "js_less x Infinity = True"

type_synonym mtable = "jsnum list list"
type_synonym stable = "int list list"

text \<open>\<open>Array(n + 1).fill(0).map(() => Array(n + 1).fill(0))\<close> with
  \<open>n + 1 = p.length\<close>: a square table of zeros.\<close>

definition zero_m :: "nat \<Rightarrow> mtable" where
  "zero_m N = replicate N (replicate N (Num 0))"

definition zero_s :: "nat \<Rightarrow> stable" where
  "zero_s N = replicate N (replicate N 0)"

text \<open>The assignment \<open>t[i][j] = v\<close>.\<close>

definition set2 :: "'a list list \<Rightarrow> nat \<Rightarrow> nat \<Rightarrow> 'a \<Rightarrow> 'a list list" where
  "set2 t i j v = t[i := (t ! i)[j := v]]"

text \<open>\<open>m[i][k] + m[k + 1][j] + p[i - 1] * p[k] * p[j]\<close>\<close>

definition cost :: "jsnum list \<Rightarrow> mtable \<Rightarrow> nat \<Rightarrow> nat \<Rightarrow> nat \<Rightarrow> jsnum" where
  "cost p m i k j =
     js_add (js_add (m ! i ! k) (m ! (k + 1) ! j))
       (js_mul (js_mul (p ! (i - 1)) (p ! k)) (p ! j))"

text \<open>The innermost loop \<open>for (let k = i; k <= j - 1; k++)\<close>; its guard is
  written \<open>k < j\<close>, the same condition over the integers.\<close>

function kloop :: "jsnum list \<Rightarrow> nat \<Rightarrow> nat \<Rightarrow> nat \<Rightarrow> mtable \<times> stable \<Rightarrow> mtable \<times> stable" where
  "kloop p i j k (m, s) =
     (if k < j then
        (let c = cost p m i k j in
         if js_less c (m ! i ! j)
         then kloop p i j (k + 1) (set2 m i j c, set2 s i j (int k))
         else kloop p i j (k + 1) (m, s))
      else (m, s))"
  by pat_completeness auto
termination
  by (relation "measure (\<lambda>(p, i, j, k, t). j - k)") auto

text \<open>The middle loop \<open>for (let i = 1; i <= n - l + 1; i++)\<close> with
  \<open>n = p.length - 1\<close>; the guard is \<open>i + l \<le> p.length\<close> over the integers,
  which also covers the empty array, where \<open>n = -1\<close>.\<close>

function iloop :: "jsnum list \<Rightarrow> nat \<Rightarrow> nat \<Rightarrow> mtable \<times> stable \<Rightarrow> mtable \<times> stable" where
  "iloop p l i (m, s) =
     (if i + l \<le> length p then
        (let j = i + l - 1 in
         iloop p l (i + 1) (kloop p i j i (set2 m i j Infinity, s)))
      else (m, s))"
  by pat_completeness auto
termination
  by (relation "measure (\<lambda>(p, l, i, t). Suc (length p) - (i + l))") auto

text \<open>The outer loop \<open>for (let l = 2; l <= n; l++)\<close>; \<open>l \<le> n\<close> is
  \<open>l < p.length\<close>.\<close>

function lloop :: "jsnum list \<Rightarrow> nat \<Rightarrow> mtable \<times> stable \<Rightarrow> mtable \<times> stable" where
  "lloop p l (m, s) =
     (if l < length p then lloop p (l + 1) (iloop p l 1 (m, s)) else (m, s))"
  by pat_completeness auto
termination
  by (relation "measure (\<lambda>(p, l, t). length p - l)") auto

record MatrixChainResult =
  mc_m :: mtable
  mc_s :: stable
  minCost :: jsnum

text \<open>\<open>matrixChainOrder\<close> of src/core/MatrixChain.ts.\<close>

definition matrixChainOrder :: "jsnum list \<Rightarrow> MatrixChainResult" where
  "matrixChainOrder p =
     (let N = length p;
          (m, s) = lloop p 2 (zero_m N, zero_s N)
      in \<lparr> mc_m = m, mc_s = s,
           minCost = (if 1 < N then m ! 1 ! (N - 1) else Num 0) \<rparr>)"

subsection \<open>Notions used to state and prove the recurrence\<close>

text \<open>A table is square of size \<open>N\<close>.\<close>

definition sq :: "nat \<Rightarrow> 'a list list \<Rightarrow> bool" where
  "sq N t \<longleftrightarrow> length t = N \<and> (\<forall>r \<in> set t. length r = N)"

text \<open>What the innermost loop, started at \<open>k\<close> on the tables \<open>t\<close>, leaves in \<open>t'\<close>:
  only cell \<open>(i, j)\<close> may change; no split cost from \<open>k\<close> on is less than \<open>m'[i][j]\<close>,
  nor is the old entry; \<open>m'[i][j]\<close> is not \<open>NaN\<close>; and it is either the old entry or
  the cost at the split stored in \<open>s'[i][j]\<close>.\<close>

definition kpost :: "jsnum list \<Rightarrow> nat \<Rightarrow> nat \<Rightarrow> nat \<Rightarrow> nat \<Rightarrow> mtable \<times> stable \<Rightarrow> mtable \<times> stable \<Rightarrow> bool" where
  "kpost p N i j k t t' \<longleftrightarrow>
     (case (t, t') of ((m, s), (m', s')) \<Rightarrow>
       sq N m' \<and> sq N s' \<and>
       (\<forall>a b. a < N \<longrightarrow> b < N \<longrightarrow> (a, b) \<noteq> (i, j) \<longrightarrow> m' ! a ! b = m ! a ! b \<and> s' ! a ! b = s ! a ! b) \<and>
       (\<forall>k'. k \<le> k' \<and> k' < j \<longrightarrow> \<not> js_less (cost p m i k' j) (m' ! i ! j)) \<and>
       \<not> js_less (m ! i ! j) (m' ! i ! j) \<and>
       m' ! i ! j \<noteq> NaN \<and>
       ((m' ! i ! j = m ! i ! j \<and> s' ! i ! j = s ! i ! j) \<or>
        (\<exists>k'. k \<le> k' \<and> k' < j \<and> s' ! i ! j = int k' \<and> m' ! i ! j = cost p m i k' j)))"

text \<open>Cell \<open>(i, j)\<close> holds what the code computes: zero on the diagonal; off the
  diagonal no split cost is less than the entry, and the entry is the cost of the split
  stored in \<open>s[i][j]\<close>, or it is still \<open>Infinity\<close> with \<open>s[i][j]\<close> still \<open>0\<close>.  The
  costs are those of \<open>cost\<close>, in double arithmetic.\<close>

definition cell_ok :: "jsnum list \<Rightarrow> mtable \<Rightarrow> stable \<Rightarrow> nat \<Rightarrow> nat \<Rightarrow> bool" where
  "cell_ok p m s i j \<longleftrightarrow>
     (if i = j then m ! i ! j = Num 0
      else (\<forall>k. i \<le> k \<and> k < j \<longrightarrow> \<not> js_less (cost p m i k j) (m ! i ! j)) \<and>
           ((\<exists>k. i \<le> k \<and> k < j \<and> s ! i ! j = int k \<and> m ! i ! j = cost p m i k j) \<or>
            (m ! i ! j = Infinity \<and> s ! i ! j = 0)))"

text \<open>Two pairs of tables agree everywhere except possibly at cell \<open>(i, j)\<close>.\<close>

definition same_but :: "nat \<Rightarrow> nat \<Rightarrow> nat \<Rightarrow> mtable \<times> stable \<Rightarrow> mtable \<times> stable \<Rightarrow> bool" where
  "same_but N i j t t' \<longleftrightarrow>
     (\<forall>a b. a < N \<longrightarrow> b < N \<longrightarrow> (a, b) \<noteq> (i, j) \<longrightarrow>
        fst t' ! a ! b = fst t ! a ! b \<and> snd t' ! a ! b = snd t ! a ! b)"

text \<open>The cells the two outer loops have finished when the outer loop is at length
  \<open>l\<close> and the middle loop at \<open>i0\<close>: the chains shorter than \<open>l\<close> and the chains of
  length \<open>l\<close> that start before \<open>i0\<close>.\<close>

definition is_done :: "nat \<Rightarrow> nat \<Rightarrow> nat \<Rightarrow> nat \<Rightarrow> nat \<Rightarrow> bool" where
  "is_done N l i0 a b \<longleftrightarrow>
     1 \<le> a \<and> a \<le> b \<and> b < N \<and> (b + 1 < l + a \<or> (b + 1 = l + a \<and> a < i0))"

text \<open>The invariant of the two outer loops: the finished cells are as \<open>cell_ok\<close> says,
  and every other cell of \<open>s\<close> is still \<open>0\<close>.\<close>

definition dp_inv :: "jsnum list \<Rightarrow> nat \<Rightarrow> nat \<Rightarrow> nat \<Rightarrow> mtable \<times> stable \<Rightarrow> bool" where
  "dp_inv p N l i0 t \<longleftrightarrow>
     sq N (fst t) \<and> sq N (snd t) \<and>
     (\<forall>a b. is_done N l i0 a b \<longrightarrow> cell_ok p (fst t) (snd t) a b) \<and>
     (\<forall>a b. a < N \<and> b < N \<and> \<not> is_done N l i0 a b \<longrightarrow> snd t ! a ! b = 0)"

text \<open>What the tables \<open>m\<close> and \<open>s\<close> returned for the numbers \<open>p\<close> satisfy in double
  arithmetic, with \<open>n = length p - 1\<close>: the diagonal is zero, and for \<open>1 \<le> i < j \<le> n\<close>
  no computed split cost is less than \<open>m[i][j]\<close>, which is the computed cost of the
  split \<open>k = s[i][j]\<close> with \<open>i \<le> k < j\<close>, unless no computed cost is less than
  \<open>Infinity\<close>: then \<open>m[i][j]\<close> is \<open>Infinity\<close> and \<open>s[i][j]\<close> is \<open>0\<close>.\<close>

definition dp_computed :: "jsnum list \<Rightarrow> mtable \<Rightarrow> stable \<Rightarrow> bool" where
  "dp_computed p m s \<longleftrightarrow>
     (\<forall>i. 1 \<le> i \<and> i < length p \<longrightarrow> m ! i ! i = Num 0) \<and>
     (\<forall>i j. 1 \<le> i \<and> i < j \<and> j < length p \<longrightarrow>
        (\<forall>k. i \<le> k \<and> k < j \<longrightarrow> \<not> js_less (cost p m i k j) (m ! i ! j)) \<and>
        ((\<exists>k. i \<le> k \<and> k < j \<and> s ! i ! j = int k \<and> m ! i ! j = cost p m i k j) \<or>
         (m ! i ! j = Infinity \<and> s ! i ! j = 0)))"

subsection \<open>The recurrence in exact arithmetic\<close>

text \<open>The recurrence as the specification states it, over the integers and not taken
  from the code: \<open>m[i][i] = 0\<close> and, for \<open>i < j\<close>, \<open>m[i][j]\<close> is the minimum over
  \<open>i \<le> k < j\<close> of \<open>m[i][k] + m[k+1][j] + p[i-1] * p[k] * p[j]\<close>.\<close>

function mc_opt :: "int list \<Rightarrow> nat \<Rightarrow> nat \<Rightarrow> int" where
  "mc_opt d i j =
     (if i < j
      then Min (set (map (\<lambda>k. mc_opt d i k + mc_opt d (k + 1) j + d ! (i - 1) * d ! k * d ! j)
                       [i..<j]))
      else 0)"
  by pat_completeness auto
termination
  by (relation "measure (\<lambda>(d, i, j). j - i)") auto

text \<open>Integer dimensions as numbers.\<close>

definition dims :: "int list \<Rightarrow> jsnum list" where
  "dims d = map (\<lambda>x. Num (of_int x)) d"

text \<open>Dimensions for which every sum and product of the computation is an integer
  below \<open>2 ^ 53\<close>, where doubles are exact: non-negative integers up to \<open>M\<close> with
  \<open>n * M ^ 3 < 2 ^ 53\<close> for the \<open>n = length d - 1\<close> matrices.\<close>

definition exact_dims :: "int list \<Rightarrow> int \<Rightarrow> bool" where
  "exact_dims d M \<longleftrightarrow>
     (\<forall>x \<in> set d. 0 \<le> x \<and> x \<le> M) \<and> int (length d - 1) * M ^ 3 < 2 ^ 53"

text \<open>The tables satisfy the recurrence in exact arithmetic: \<open>m[i][i] = 0\<close>, and for
  \<open>1 \<le> i < j \<le> n\<close> the entry \<open>m[i][j]\<close> is the minimum \<open>mc_opt d i j\<close> and
  \<open>s[i][j]\<close> is a split \<open>k\<close> with \<open>i \<le> k < j\<close> that attains it.\<close>

definition dp_exact :: "int list \<Rightarrow> mtable \<Rightarrow> stable \<Rightarrow> bool" where
  "dp_exact d m s \<longleftrightarrow>
     (\<forall>i. 1 \<le> i \<and> i < length d \<longrightarrow> m ! i ! i = Num 0) \<and>
     (\<forall>i j. 1 \<le> i \<and> i < j \<and> j < length d \<longrightarrow>
        m ! i ! j = Num (of_int (mc_opt d i j)) \<and>
        (\<exists>k. i \<le> k \<and> k < j \<and> s ! i ! j = int k \<and>
           mc_opt d i j = mc_opt d i k + mc_opt d (k + 1) j + d ! (i - 1) * d ! k * d ! j))"

subsection \<open>The second copy of \<open>matrixChainOrder\<close> (the module unnamed/part_004)\<close>

text \<open>This module has no file name among the sources.  It first runs \<open>for (let i = 1; i <= n; i++) m[i][i] = 0\<close> and then
  the same three loops, with the names \<open>L\<close> and \<open>q\<close> for \<open>l\<close> and \<open>cost\<close>.\<close>

function dloop :: "nat \<Rightarrow> nat \<Rightarrow> mtable \<Rightarrow> mtable" where
  "dloop N i m = (if i < N then dloop N (i + 1) (set2 m i i (Num 0)) else m)"
  by pat_completeness auto
termination
  by (relation "measure (\<lambda>(N, i, m). N - i)") auto

function kloop_u :: "jsnum list \<Rightarrow> nat \<Rightarrow> nat \<Rightarrow> nat \<Rightarrow> mtable \<times> stable \<Rightarrow> mtable \<times> stable" where
  "kloop_u p i j k (m, s) =
     (if k < j then
        (let q = js_add (js_add (m ! i ! k) (m ! (k + 1) ! j))
                   (js_mul (js_mul (p ! (i - 1)) (p ! k)) (p ! j)) in
         if js_less q (m ! i ! j)
         then kloop_u p i j (k + 1) (set2 m i j q, set2 s i j (int k))
         else kloop_u p i j (k + 1) (m, s))
      else (m, s))"
  by pat_completeness auto
termination
  by (relation "measure (\<lambda>(p, i, j, k, t). j - k)") auto

function iloop_u :: "jsnum list \<Rightarrow> nat \<Rightarrow> nat \<Rightarrow> mtable \<times> stable \<Rightarrow> mtable \<times> stable" where
  "iloop_u p L i (m, s) =
     (if i + L \<le> length p then
        (let j = i + L - 1 in
         iloop_u p L (i + 1) (kloop_u p i j i (set2 m i j Infinity, s)))
      else (m, s))"
  by pat_completeness auto
termination
  by (relation "measure (\<lambda>(p, L, i, t). Suc (length p) - (i + L))") auto

function lloop_u :: "jsnum list \<Rightarrow> nat \<Rightarrow> mtable \<times> stable \<Rightarrow> mtable \<times> stable" where
  "lloop_u p L (m, s) =
     (if L < length p then lloop_u p (L + 1) (iloop_u p L 1 (m, s)) else (m, s))"
  by pat_completeness auto
termination
  by (relation "measure (\<lambda>(p, L, t). length p - L)") auto

record MSResult =
  ms_m :: mtable
  ms_s :: stable

definition matrixChainOrder_u :: "jsnum list \<Rightarrow> MSResult" where
  "matrixChainOrder_u p =
     (let N = length p;
          m = dloop N 1 (zero_m N);
          (m, s) = lloop_u p 2 (m, zero_s N)
      in \<lparr> ms_m = m, ms_s = s \<rparr>)"

section \<open>Tree layout (the two \<open>computeTreeLayout\<close> modules)\<close>

text \<open>
  A tree snapshot is an \<open>RBNode | null\<close>: \<open>Null\<close> stands for \<open>null\<close>, and a node
  carries \<open>id\<close>, \<open>value\<close>, \<open>color\<close>, \<open>left\<close>, \<open>right\<close> and \<open>parentId\<close>
  (\<open>None\<close> when it is \<open>null\<close> or absent).  Screen coordinates are modelled as
  rationals; no claim below depends on them.
\<close>

datatype color = RED | BLACK

datatype RBNode =
  Null
  | RBNode (rb_id: int) (rb_value: int) (rb_color: color)
      (rb_left: RBNode) (rb_right: RBNode) (rb_parentId: "int option")

type_synonym edge = "int \<times> int"  \<comment> \<open>\<open>{ from, to }\<close>\<close>

subsection \<open>The layout with NIL placeholders (\<open>Layout\<close>)\<close>

record LayoutNode =
  ln_id :: int
  ln_value :: "int option"  \<comment> \<open>\<open>None\<close> is \<open>NaN\<close>\<close>
  ln_color :: color
  ln_x :: rat
  ln_y :: rat
  ln_parentId :: "int option"
  ln_leftId :: "int option"
  ln_rightId :: "int option"

record Layout =
  lay_nodes :: "LayoutNode list"
  lay_edges :: "edge list"
  lay_width :: rat
  lay_height :: rat

text \<open>\<open>n.left ? n.left.id : null\<close>\<close>

fun id_or_null :: "RBNode \<Rightarrow> int option" where
  "id_or_null Null = None"
| "id_or_null (RBNode i v c l r p) = Some i"

fun countNodes :: "RBNode \<Rightarrow> nat" where
  "countNodes Null = 1"
| "countNodes (RBNode i v c l r p) = countNodes l + countNodes r"

text \<open>\<open>traverse\<close> only appends to \<open>nodes\<close>; the list is passed through.\<close>

fun traverse ::
  "RBNode \<Rightarrow> nat \<Rightarrow> rat \<Rightarrow> rat \<Rightarrow> int option \<Rightarrow> bool \<Rightarrow> LayoutNode list \<Rightarrow> LayoutNode list" where
  "traverse Null depth leftBound rightBound parentId isLeft nodes =
     (let y = 50 + of_nat depth * 60;
          midX = (leftBound + rightBound) / 2
      in case parentId of
           None \<Rightarrow> nodes
         | Some pid \<Rightarrow>
             nodes @ [\<lparr> ln_id = - ((pid * 10) + (if isLeft then 1 else 2)), ln_value = None,
                        ln_color = BLACK, ln_x = midX, ln_y = y, ln_parentId = Some pid,
                        ln_leftId = None, ln_rightId = None \<rparr>])"
| "traverse (RBNode i v c l r p) depth leftBound rightBound parentId isLeft nodes =
     (let y = 50 + of_nat depth * 60;
          midX = (leftBound + rightBound) / 2;
          nodes1 = nodes @ [\<lparr> ln_id = i, ln_value = Some v, ln_color = c, ln_x = midX, ln_y = y,
                               ln_parentId = p, ln_leftId = id_or_null l,
                               ln_rightId = id_or_null r \<rparr>];
          leftCount = countNodes l;
          rightCount = countNodes r;
          totalCount = leftCount + rightCount;
          splitRatio = (if totalCount > 0 then of_nat leftCount / of_nat totalCount else 1 / 2);
          splitX = leftBound + (rightBound - leftBound) * splitRatio;
          nodes2 = traverse l (depth + 1) leftBound splitX (Some i) True nodes1
      in traverse r (depth + 1) splitX rightBound (Some i) False nodes2)"

text \<open>
  The body of the second \<open>nodes.forEach\<close>.  \<open>ids\<close> are the keys of \<open>nodeMap\<close>;
  \<open>if (n.leftId)\<close> is false for \<open>null\<close> and for the number \<open>0\<close>.
\<close>

definition child_edge :: "int list \<Rightarrow> int \<Rightarrow> int option \<Rightarrow> int \<Rightarrow> edge list" where
  "child_edge ids i childId tag =
     (case childId of
        Some c \<Rightarrow>
          if c \<noteq> 0 then [(i, c)]
          else (let nilId = - ((i * 10) + tag) in if nilId \<in> set ids then [(i, nilId)] else [])
      | None \<Rightarrow>
          (let nilId = - ((i * 10) + tag) in if nilId \<in> set ids then [(i, nilId)] else []))"

definition node_edges :: "int list \<Rightarrow> LayoutNode \<Rightarrow> edge list" where
  "node_edges ids n =
     (if ln_id n > 0
      then child_edge ids (ln_id n) (ln_leftId n) 1 @ child_edge ids (ln_id n) (ln_rightId n) 2
      else [])"

text \<open>The parameter \<open>root\<close> is written \<open>rootNode\<close>.\<close>

definition computeTreeLayout :: "RBNode \<Rightarrow> rat \<Rightarrow> rat \<Rightarrow> Layout" where
  "computeTreeLayout rootNode width height =
     (case rootNode of
        Null \<Rightarrow> \<lparr> lay_nodes = [], lay_edges = [], lay_width = width, lay_height = height \<rparr>
      | _ \<Rightarrow>
          (let margin = 40;
               nodes = traverse rootNode 0 margin (width - margin) None False [];
               ids = map ln_id nodes;
               edges = concat (map (node_edges ids) nodes)
           in \<lparr> lay_nodes = nodes, lay_edges = edges, lay_width = width, lay_height = height \<rparr>))"

subsection \<open>The in-order layout (\<open>TreeLayout\<close>)\<close>

text \<open>This module reads only \<open>id\<close>, \<open>value\<close>, \<open>color\<close>, \<open>left\<close> and \<open>right\<close>
  of a node.\<close>

record TLNode =
  tn_id :: int
  tn_value :: int
  tn_color :: color
  tn_x :: rat
  tn_y :: rat

record TreeLayout =
  tl_nodes :: "TLNode list"
  tl_edges :: "edge list"

fun getDepth :: "RBNode \<Rightarrow> nat" where
  "getDepth Null = 0"
| "getDepth (RBNode i v c l r p) = 1 + max (getDepth l) (getDepth r)"

fun countNodes_t :: "RBNode \<Rightarrow> nat" where
  "countNodes_t Null = 0"
| "countNodes_t (RBNode i v c l r p) = 1 + countNodes_t l + countNodes_t r"

text \<open>\<open>if (node.left) edges.push({ from: node.id, to: node.left.id })\<close>\<close>

fun push_edge :: "int \<Rightarrow> RBNode \<Rightarrow> edge list \<Rightarrow> edge list" where
  "push_edge i Null edges = edges"
| "push_edge i (RBNode j v c l r p) edges = edges @ [(i, j)]"

text \<open>The state of the in-order walk: \<open>inOrderIndex\<close>, \<open>nodes\<close>, \<open>edges\<close>.  The
  map \<open>nodePositions\<close> is written but never read and is left out.\<close>

fun traverse_t ::
  "RBNode \<Rightarrow> nat \<Rightarrow> rat \<Rightarrow> rat \<Rightarrow> nat \<times> TLNode list \<times> edge list \<Rightarrow> nat \<times> TLNode list \<times> edge list" where
  "traverse_t Null level horizontalSpacing verticalSpacing st = st"
| "traverse_t (RBNode i v c l r p) level horizontalSpacing verticalSpacing st =
     (case traverse_t l (level + 1) horizontalSpacing verticalSpacing st of
        (idx, nodes, edges) \<Rightarrow>
          (let inOrderIndex = idx + 1;
               x = of_nat inOrderIndex * horizontalSpacing;
               y = (of_nat level + 1) * verticalSpacing;
               nodes1 = nodes @ [\<lparr> tn_id = i, tn_value = v, tn_color = c, tn_x = x, tn_y = y \<rparr>];
               edges1 = push_edge i l edges;
               edges2 = push_edge i r edges1
           in traverse_t r (level + 1) horizontalSpacing verticalSpacing
                (inOrderIndex, nodes1, edges2)))"

definition computeTreeLayout_t :: "RBNode \<Rightarrow> rat \<Rightarrow> rat \<Rightarrow> TreeLayout" where
  "computeTreeLayout_t rootNode width height =
     (case rootNode of
        Null \<Rightarrow> \<lparr> tl_nodes = [], tl_edges = [] \<rparr>
      | _ \<Rightarrow>
          (let depth = getDepth rootNode;
               verticalSpacing = height / (of_nat depth + 1);
               totalNodes = countNodes_t rootNode;
               horizontalSpacing = width / (of_nat totalNodes + 1)
           in case traverse_t rootNode 0 horizontalSpacing verticalSpacing (0, [], []) of
                (idx, nodes, edges) \<Rightarrow> \<lparr> tl_nodes = nodes, tl_edges = edges \<rparr>))"

subsection \<open>Parent-to-child pairs of a snapshot\<close>

text \<open>Every pair (parent id, id of a real child), one entry per link, in pre-order.\<close>

fun real_link :: "int \<Rightarrow> RBNode \<Rightarrow> edge list" where
  "real_link i Null = []"
| "real_link i (RBNode j v c l r p) = [(i, j)]"

fun pc_pairs :: "RBNode \<Rightarrow> edge list" where
  "pc_pairs Null = []"
| "pc_pairs (RBNode i v c l r p) = real_link i l @ real_link i r @ pc_pairs l @ pc_pairs r"

text \<open>Every child slot of every node, in pre-order: the id of the real child, or the
  id the \<open>Layout\<close> module gives to the NIL placeholder of that slot.\<close>

fun slot_target :: "int \<Rightarrow> int \<Rightarrow> RBNode \<Rightarrow> int" where
  "slot_target i tag Null = - ((i * 10) + tag)"
| "slot_target i tag (RBNode j v c l r p) = j"

fun slot_pairs :: "RBNode \<Rightarrow> edge list" where
  "slot_pairs Null = []"
| "slot_pairs (RBNode i v c l r p) =
     [(i, slot_target i 1 l), (i, slot_target i 2 r)] @ slot_pairs l @ slot_pairs r"

fun ids_positive :: "RBNode \<Rightarrow> bool" where
  "ids_positive Null = True"
| "ids_positive (RBNode i v c l r p) = (0 < i \<and> ids_positive l \<and> ids_positive r)"

text \<open>Names for two sub-expressions of \<open>traverse\<close>, and the in-order listing of
  the parent-to-child pairs.\<close>

definition splitX_of :: "RBNode \<Rightarrow> RBNode \<Rightarrow> rat \<Rightarrow> rat \<Rightarrow> rat" where
  "splitX_of l r lb rb = lb + (rb - lb) *
            (if countNodes l + countNodes r > 0
             then of_nat (countNodes l) / of_nat (countNodes l + countNodes r) else 1 / 2)"

definition real_node :: "RBNode \<Rightarrow> nat \<Rightarrow> rat \<Rightarrow> rat \<Rightarrow> LayoutNode" where
  "real_node t d lb rb =
     \<lparr> ln_id = rb_id t, ln_value = Some (rb_value t), ln_color = rb_color t,
       ln_x = (lb + rb) / 2, ln_y = 50 + of_nat d * 60, ln_parentId = rb_parentId t,
       ln_leftId = id_or_null (rb_left t), ln_rightId = id_or_null (rb_right t) \<rparr>"

fun inorder_pairs :: "RBNode \<Rightarrow> edge list" where
  "inorder_pairs Null = []"
| "inorder_pairs (RBNode i v c l r p) =
     inorder_pairs l @ real_link i l @ real_link i r @ inorder_pairs r"


section \<open>Parenthesisation trees (\<open>buildParenthesisTree\<close>, both modules)\<close>

text \<open>
  A run of \<open>buildParenthesisTree\<close> either returns a tree or throws: \<open>TypeError\<close>
  when \<open>s[i]\<close> is \<open>undefined\<close>, \<open>RangeError\<close> when the call stack is
  exhausted.  The first argument of the model is the number of nested calls the stack
  allows.  When \<open>s[i][j]\<close> is \<open>undefined\<close> the recursion on \<open>(i, undefined)\<close>
  never reaches \<open>i === j\<close> and ends in \<open>RangeError\<close> before any further id is
  taken by the module unnamed/part_004.  The id counter is passed in and returned.
\<close>

datatype js_error = TypeError | RangeError

datatype 'a TreeNode =
  TreeNode (pt_id: 'a) (pt_label: string) (pt_left: "'a TreeNode option")
    (pt_right: "'a TreeNode option")

text \<open>Decimal rendering of a number inside a template literal.\<close>

function show_nat :: "nat \<Rightarrow> string" where
  "show_nat n =
     (if n < 10 then [''0123456789'' ! n]
      else show_nat (n div 10) @ [''0123456789'' ! (n mod 10)])"
  by pat_completeness auto
termination
  by (relation "measure (\<lambda>n. n)") auto

definition show_int :: "int \<Rightarrow> string" where
  "show_int i = (if i < 0 then CHR ''-'' # show_nat (nat (- i)) else show_nat (nat i))"

text \<open>\<open>s[i][j]\<close>: \<open>Inl TypeError\<close> when the row is missing, \<open>Inr None\<close> when the
  entry is \<open>undefined\<close>.\<close>

definition read2 :: "stable \<Rightarrow> int \<Rightarrow> int \<Rightarrow> js_error + int option" where
  "read2 s i j =
     (if 0 \<le> i \<and> i < int (length s)
      then (let row = s ! nat i
            in if 0 \<le> j \<and> j < int (length row) then Inr (Some (row ! nat j)) else Inr None)
      else Inl TypeError)"

text \<open>src/core/MatrixChain.ts: \<open>id: idCounter.val++\<close> is evaluated before the two
  recursive calls; \<open>c\<close> is \<open>idCounter.val\<close>.\<close>

fun buildParenthesisTree ::
  "nat \<Rightarrow> stable \<Rightarrow> int \<Rightarrow> int \<Rightarrow> nat \<Rightarrow> (js_error + nat TreeNode) \<times> nat" where
  "buildParenthesisTree 0 s i j c = (Inl RangeError, c)"
| "buildParenthesisTree (Suc fuel) s i j c =
     (if i = j then (Inr (TreeNode c (''A'' @ show_int i) None None), c + 1)
      else case read2 s i j of
        Inl e \<Rightarrow> (Inl e, c)
      | Inr None \<Rightarrow> (Inl RangeError, c)
      | Inr (Some k) \<Rightarrow>
          (case buildParenthesisTree fuel s i k (c + 1) of
             (Inl e, c1) \<Rightarrow> (Inl e, c1)
           | (Inr l, c1) \<Rightarrow>
               (case buildParenthesisTree fuel s (k + 1) j c1 of
                  (Inl e, c2) \<Rightarrow> (Inl e, c2)
                | (Inr r, c2) \<Rightarrow>
                    (Inr (TreeNode c (''('' @ show_int i @ '','' @ show_int j @ '')'')
                            (Some l) (Some r)), c2))))"

text \<open>A call that omits \<open>idCounter\<close> gets the default \<open>{ val: 0 }\<close>, built anew
  at every call.\<close>

definition buildParenthesisTree_default ::
  "nat \<Rightarrow> stable \<Rightarrow> int \<Rightarrow> int \<Rightarrow> js_error + nat TreeNode" where
  "buildParenthesisTree_default fuel s i j = fst (buildParenthesisTree fuel s i j 0)"

text \<open>The module unnamed/part_004: \<open>let _nodeCounter = 0; function nextId() { return
  `n${++_nodeCounter}`; }\<close>, with \<open>nextId()\<close> called after both subtrees are built.
  \<open>c\<close> is the module-level \<open>_nodeCounter\<close>.\<close>

definition nextId :: "nat \<Rightarrow> string \<times> nat" where
  "nextId c = (''n'' @ show_nat (c + 1), c + 1)"

fun buildParenthesisTree_u ::
  "nat \<Rightarrow> stable \<Rightarrow> int \<Rightarrow> int \<Rightarrow> nat \<Rightarrow> (js_error + string TreeNode) \<times> nat" where
  "buildParenthesisTree_u 0 s i j c = (Inl RangeError, c)"
| "buildParenthesisTree_u (Suc fuel) s i j c =
     (if i = j then
        (case nextId c of (n, c1) \<Rightarrow> (Inr (TreeNode n (''A'' @ show_int i) None None), c1))
      else case read2 s i j of
        Inl e \<Rightarrow> (Inl e, c)
      | Inr None \<Rightarrow> (Inl RangeError, c)
      | Inr (Some k) \<Rightarrow>
          (case buildParenthesisTree_u fuel s i k c of
             (Inl e, c1) \<Rightarrow> (Inl e, c1)
           | (Inr l, c1) \<Rightarrow>
               (case buildParenthesisTree_u fuel s (k + 1) j c1 of
                  (Inl e, c2) \<Rightarrow> (Inl e, c2)
                | (Inr r, c2) \<Rightarrow>
                    (case nextId c2 of
                       (n, c3) \<Rightarrow>
                         (Inr (TreeNode n (''('' @ show_int i @ ''-'' @ show_int j @ '')'')
                                 (Some l) (Some r)), c3)))))"

text \<open>Two calls one after the other in the module unnamed/part_004: the second starts from
  the counter the first one left.\<close>

definition two_calls_u ::
  "nat \<Rightarrow> stable \<Rightarrow> int \<Rightarrow> int \<Rightarrow> nat \<Rightarrow> (js_error + string TreeNode) \<times> (js_error + string TreeNode)" where
  "two_calls_u fuel s i j c =
     (case buildParenthesisTree_u fuel s i j c of
        (r1, c1) \<Rightarrow> (r1, fst (buildParenthesisTree_u fuel s i j c1)))"

text \<open>Shape and labels of a tree, ids forgotten; the ids in post-order and in
  pre-order; the number of nodes.\<close>

definition erase_ids :: "'a TreeNode \<Rightarrow> unit TreeNode" where
  "erase_ids t = map_TreeNode (\<lambda>_. ()) t"

fun post_ids :: "'a TreeNode \<Rightarrow> 'a list" where
  "post_ids (TreeNode n lab l r) =
     (case l of None \<Rightarrow> [] | Some t \<Rightarrow> post_ids t) @
     (case r of None \<Rightarrow> [] | Some t \<Rightarrow> post_ids t) @ [n]"

fun pre_ids :: "'a TreeNode \<Rightarrow> 'a list" where
  "pre_ids (TreeNode n lab l r) =
     n # (case l of None \<Rightarrow> [] | Some t \<Rightarrow> pre_ids t) @
         (case r of None \<Rightarrow> [] | Some t \<Rightarrow> pre_ids t)"

definition node_count :: "'a TreeNode \<Rightarrow> nat" where
  "node_count t = length (pre_ids t)"

text \<open>The shape and labels both modules produce, written without any counter.\<close>

fun shape :: "string \<Rightarrow> nat \<Rightarrow> stable \<Rightarrow> int \<Rightarrow> int \<Rightarrow> js_error + unit TreeNode" where
  "shape sep 0 s i j = Inl RangeError"
| "shape sep (Suc fuel) s i j =
     (if i = j then Inr (TreeNode () (''A'' @ show_int i) None None)
      else case read2 s i j of
        Inl e \<Rightarrow> Inl e
      | Inr None \<Rightarrow> Inl RangeError
      | Inr (Some k) \<Rightarrow>
          (case shape sep fuel s i k of
             Inl e \<Rightarrow> Inl e
           | Inr l \<Rightarrow>
               (case shape sep fuel s (k + 1) j of
                  Inl e \<Rightarrow> Inl e
                | Inr r \<Rightarrow>
                    Inr (TreeNode () (''('' @ show_int i @ sep @ show_int j @ '')'')
                           (Some l) (Some r)))))"


section \<open>The instrumented Red-Black tree engine (core/RBTree.ts)\<close>

text \<open>
  Modelled from the spec: the module core/RBTree.ts (class \<open>RBTree\<close> with
  \<open>insert\<close>, \<open>delete\<close>, \<open>search\<close>, \<open>startOperation\<close>, \<open>endOperation\<close>,
  \<open>getAllSteps\<close>, \<open>getOperations\<close>, \<open>reset\<close>, and the types \<open>RBNode\<close> and
  \<open>Step\<close>) is not among the sources; only its callers and the type of its snapshots
  are.  Everything in this section follows sections 3, 4 and 7 of the specification.

  The node store is a tree of nodes with id, key and colour; \<open>NIL\<close> is the shared black
  sentinel.  Parent links are represented by the path from the current node up to the
  root: the head of the path is the parent of the current node (its id, key, colour,
  the side the current node hangs on and the sibling subtree), the next entry is the
  grandparent, and so on.  A snapshot is a deep copy into an \<open>RBNode\<close> value.
\<close>

datatype rbt = NIL | Node (n_id: int) (n_key: int) (n_color: color) (n_left: rbt) (n_right: rbt)

datatype side = LeftSide | RightSide

datatype frame =
  Frame (f_side: side) (f_id: int) (f_key: int) (f_color: color) (f_sibling: rbt)

text \<open>Modelled from the spec: the colour of a link of core/RBTree.ts (section 3).  NIL is BLACK.\<close>

fun color_of :: "rbt \<Rightarrow> color" where
  "color_of NIL = BLACK"
| "color_of (Node i k c l r) = c"

fun paint :: "color \<Rightarrow> rbt \<Rightarrow> rbt" where
  "paint c NIL = NIL"
| "paint c (Node i k c0 l r) = Node i k c l r"

text \<open>Modelled from the spec: the parent and child links of core/RBTree.ts (section 3).  The
  parent node with the current subtree put back on its side, and the whole tree
  rebuilt from a path and the current subtree.\<close>

fun attach :: "frame \<Rightarrow> rbt \<Rightarrow> rbt" where
  "attach (Frame LeftSide i k c sib) t = Node i k c t sib"
| "attach (Frame RightSide i k c sib) t = Node i k c sib t"

fun rebuild :: "frame list \<Rightarrow> rbt \<Rightarrow> rbt" where
  "rebuild [] t = t"
| "rebuild (f # fs) t = rebuild fs (attach f t)"

text \<open>Modelled from the spec: \<open>rotateLeft\<close> and \<open>rotateRight\<close> of core/RBTree.ts.
  Rotations are pure rewiring and change no colour (section 4.1).  A rotation
  needs the child that moves up; without it nothing is rewired.\<close>

fun rotate_left :: "rbt \<Rightarrow> rbt" where
  "rotate_left (Node xi xk xc a (Node yi yk yc b c)) = Node yi yk yc (Node xi xk xc a b) c"
| "rotate_left t = t"

fun rotate_right :: "rbt \<Rightarrow> rbt" where
  "rotate_right (Node yi yk yc (Node xi xk xc a b) c) = Node xi xk xc a (Node yi yk yc b c)"
| "rotate_right t = t"

subsection \<open>Steps, operations and the engine state\<close>

text \<open>Modelled from the spec: the types \<open>Step\<close> and \<open>Operation\<close> and the state of the class
  \<open>RBTree\<close> of core/RBTree.ts (section 3).  The fields of a step are those its callers
  read; ids start at 1.\<close>

datatype step_kind =
  CREATE | RECOLOR | ROTATE_LEFT | ROTATE_RIGHT | TRAVERSE | REMOVE | REPLACE | DONE
  | FOUND | NOT_FOUND

record Step =
  st_id :: nat
  st_type :: step_kind
  st_description :: string
  st_treeSnapshot :: RBNode
  st_extraNode :: "RBNode option"
  st_highlightedNodeIds :: "int list"
  st_traversingId :: "int option"
  st_operationId :: nat

record Operation =
  op_id :: nat
  op_type :: string
  op_keys :: "int list"

record rb_state =
  tree_root :: rbt
  steps :: "Step list"
  operations :: "Operation list"
  currentOp :: "nat option"
  nextStepId :: nat
  nextOpId :: nat
  nextNodeId :: int

definition init_state :: rb_state where
  "init_state = \<lparr> tree_root = NIL, steps = [], operations = [], currentOp = None,
                   nextStepId = 1, nextOpId = 1, nextNodeId = 1 \<rparr>"

text \<open>Modelled from the spec: \<open>reset\<close> of core/RBTree.ts (section 4.2), which clears tree,
  log, operations and counters.\<close>

definition reset :: "rb_state \<Rightarrow> rb_state" where
  "reset st = init_state"

text \<open>Modelled from the spec: the snapshot taken by \<open>record\<close> in core/RBTree.ts (sections 3
  and 5).  The deep copy stored in a step: ids, keys, colours and links are copied into a
  fresh \<open>RBNode\<close> value.\<close>

fun snapshot_from :: "int option \<Rightarrow> rbt \<Rightarrow> RBNode" where
  "snapshot_from parent NIL = Null"
| "snapshot_from parent (Node i k c l r) =
     RBNode i k c (snapshot_from (Some i) l) (snapshot_from (Some i) r) parent"

definition snapshot :: "rbt \<Rightarrow> RBNode" where
  "snapshot t = snapshot_from None t"

text \<open>Modelled from the spec: \<open>startOperation\<close>, \<open>endOperation\<close>, \<open>getAllSteps\<close> and
  \<open>getOperations\<close> of core/RBTree.ts (section 4.2).  \<open>startOperation\<close> replaces the
  active context; \<open>endOperation\<close> closes it.\<close>

definition startOperation :: "string \<Rightarrow> int list \<Rightarrow> rb_state \<Rightarrow> rb_state" where
  "startOperation ty keys st =
     st \<lparr> operations := operations st @ [\<lparr> op_id = nextOpId st, op_type = ty, op_keys = keys \<rparr>],
          currentOp := Some (nextOpId st),
          nextOpId := nextOpId st + 1 \<rparr>"

definition endOperation :: "rb_state \<Rightarrow> rb_state" where
  "endOperation st = st \<lparr> currentOp := None \<rparr>"

definition getAllSteps :: "rb_state \<Rightarrow> Step list" where
  "getAllSteps st = steps st"

definition getOperations :: "rb_state \<Rightarrow> Operation list" where
  "getOperations st = operations st"

text \<open>
  Modelled from the spec: \<open>record\<close> of core/RBTree.ts (section 4.2), here \<open>record_step\<close>: snapshots the current tree, which the
  engine passes as \<open>t\<close>, assigns the next step id, tags the step with the open
  operation (opening an implicit one when none is open) and appends it to the log.
\<close>

definition record_step ::
  "rbt \<Rightarrow> step_kind \<Rightarrow> string \<Rightarrow> int list \<Rightarrow> int option \<Rightarrow> rb_state \<Rightarrow> rb_state" where
  "record_step t kind description highlightIds traversingId st =
     (let st1 = (case currentOp st of Some oid \<Rightarrow> st | None \<Rightarrow> startOperation ''STEP'' [] st);
          oid = (case currentOp st1 of Some oid \<Rightarrow> oid | None \<Rightarrow> 0)
      in st1 \<lparr> steps := steps st1 @
                 [\<lparr> st_id = nextStepId st1, st_type = kind, st_description = description,
                    st_treeSnapshot = snapshot t, st_extraNode = None,
                    st_highlightedNodeIds = highlightIds, st_traversingId = traversingId,
                    st_operationId = oid \<rparr>],
               nextStepId := nextStepId st1 + 1 \<rparr>)"

text \<open>Modelled from the spec: the operation context of a facade call in core/RBTree.ts (section
  3, Operation).  A facade call opens its own operation unless the caller has one open, and
  closes it again when it finishes; it returns the steps it appended.\<close>

definition begin_call :: "string \<Rightarrow> int \<Rightarrow> rb_state \<Rightarrow> rb_state" where
  "begin_call ty key st =
     (case currentOp st of Some oid \<Rightarrow> st | None \<Rightarrow> startOperation ty [key] st)"

definition end_call :: "rb_state \<Rightarrow> rb_state \<Rightarrow> rb_state \<times> Step list" where
  "end_call st0 st =
     (let st' = (case currentOp st0 of Some oid \<Rightarrow> st | None \<Rightarrow> endOperation st)
      in (st', drop (length (steps st0)) (steps st')))"

text \<open>Modelled from the spec: the one fatal condition of core/RBTree.ts (section 7, d).\<close>

datatype rb_error = InvariantViolation

subsection \<open>Descent by comparisons\<close>

text \<open>Modelled from the spec: the comparison descent of core/RBTree.ts (sections 4.3 to 4.5).
  One step per comparison: a TRAVERSE step when the search goes left or right.
  The result says whether a node with the key was reached (with the path to it and
  the node), or the NIL link where the descent ended (with the path to it).\<close>

datatype descent = Reached "frame list" rbt | Ended "frame list"

fun descend :: "int \<Rightarrow> rbt \<Rightarrow> rbt \<Rightarrow> frame list \<Rightarrow> rb_state \<Rightarrow> descent \<times> rb_state" where
  "descend key whole NIL path st = (Ended path, st)"
| "descend key whole (Node i k c l r) path st =
     (if key = k then (Reached path (Node i k c l r), st)
      else if key < k then
        descend key whole l (Frame LeftSide i k c r # path)
          (record_step whole TRAVERSE ''compare: go left'' [i] (Some i) st)
      else
        descend key whole r (Frame RightSide i k c l # path)
          (record_step whole TRAVERSE ''compare: go right'' [i] (Some i) st))"

subsection \<open>Insert (section 4.3)\<close>

text \<open>Modelled from the spec: the recolouring of case A of the insert fix-up of core/RBTree.ts,
  on the grandparent subtree: parent and uncle BLACK, grandparent RED.\<close>

fun recolor_uncle_red :: "rbt \<Rightarrow> rbt" where
  "recolor_uncle_red (Node gi gk gc l r) = Node gi gk RED (paint BLACK l) (paint BLACK r)"
| "recolor_uncle_red NIL = NIL"

text \<open>Modelled from the spec: case C of the insert fix-up of core/RBTree.ts, on the grandparent
  subtree: the parent, on side \<open>sd\<close>, BLACK and the
  grandparent RED; then the grandparent is rotated away from the parent's side.\<close>

fun recolor_outer :: "side \<Rightarrow> rbt \<Rightarrow> rbt" where
  "recolor_outer LeftSide (Node gi gk gc l r) = Node gi gk RED (paint BLACK l) r"
| "recolor_outer RightSide (Node gi gk gc l r) = Node gi gk RED l (paint BLACK r)"
| "recolor_outer sd NIL = NIL"

fun rotate_away :: "side \<Rightarrow> rbt \<Rightarrow> rbt" where
  "rotate_away LeftSide t = rotate_right t"
| "rotate_away RightSide t = rotate_left t"

fun rotate_kind_away :: "side \<Rightarrow> step_kind" where
  "rotate_kind_away LeftSide = ROTATE_RIGHT"
| "rotate_kind_away RightSide = ROTATE_LEFT"

text \<open>
  Modelled from the spec: the insert fix-up loop of core/RBTree.ts (section 4.3, step 2).
  \<open>z\<close> is the current node with its subtree; the head of the path
  is its parent, the next frame its grandparent, whose sibling subtree is the uncle.
  The loop runs while the parent is RED.  A RED parent without a grandparent cannot
  occur in a Red-Black tree and is the fatal condition (d) of section 7.
\<close>

fun insert_fixup :: "frame list \<Rightarrow> rbt \<Rightarrow> rb_state \<Rightarrow> rb_error + (rbt \<times> rb_state)" where
  "insert_fixup [] z st = Inr (z, st)"
| "insert_fixup [p] z st =
     (if f_color p = RED then Inl InvariantViolation else Inr (attach p z, st))"
| "insert_fixup (p # g # rest) z st =
     (if f_color p \<noteq> RED then Inr (rebuild (p # g # rest) z, st)
      else if color_of (f_sibling g) = RED then
        \<comment> \<open>Case A: uncle RED\<close>
        (let g' = recolor_uncle_red (attach g (attach p z));
             st1 = record_step (rebuild rest g') RECOLOR
                     ''uncle RED: parent and uncle BLACK, grandparent RED''
                     [f_id p, f_id g] None st
         in insert_fixup rest g' st1)
      else
        \<comment> \<open>Case B: the current node is an inner child\<close>
        (let (psub, st1) =
               (if f_side p \<noteq> f_side g then
                  (let psub = rotate_away (f_side p) (attach p z)
                   in (psub,
                       record_step (rebuild rest (attach g psub)) (rotate_kind_away (f_side p))
                         ''inner child: rotate parent'' [f_id p] None st))
                else (attach p z, st));
             \<comment> \<open>Case C: the current node is an outer child\<close>
             g1 = recolor_outer (f_side g) (attach g psub);
             st2 = record_step (rebuild rest g1) RECOLOR
                     ''outer child: parent BLACK, grandparent RED'' [f_id g] None st1;
             g2 = rotate_away (f_side g) g1;
             st3 = record_step (rebuild rest g2) (rotate_kind_away (f_side g))
                     ''outer child: rotate grandparent'' [f_id g] None st2
         in Inr (rebuild rest g2, st3)))"

text \<open>Modelled from the spec: step 3 of insert in core/RBTree.ts: the root is forced BLACK,
  recorded only when the colour changes.\<close>

definition blacken_root :: "rbt \<Rightarrow> rb_state \<Rightarrow> rbt \<times> rb_state" where
  "blacken_root t st =
     (if color_of t = RED
      then (paint BLACK t, record_step (paint BLACK t) RECOLOR ''root BLACK'' [n_id t] None st)
      else (t, st))"

text \<open>Modelled from the spec: \<open>insert\<close> of core/RBTree.ts (section 4.3), here
  \<open>insert_rb\<close> since \<open>insert\<close> is the name of a library constant: descent, the new RED
  leaf with its CREATE step, the fix-up loop, the root forced BLACK.  A key already
  present ends the call with a FOUND step and no change.\<close>

definition insert_rb :: "int \<Rightarrow> rb_state \<Rightarrow> rb_error + (rb_state \<times> Step list)" where
  "insert_rb key st0 =
     (let st = begin_call ''INSERT'' key st0 in
      case descend key (tree_root st) (tree_root st) [] st of
        (Reached path n, st1) \<Rightarrow>
          Inr (end_call st0
                 (record_step (tree_root st) FOUND ''already present'' [n_id n] None st1))
      | (Ended path, st1) \<Rightarrow>
          (let z = Node (nextNodeId st1) key RED NIL NIL;
               st2 = st1 \<lparr> nextNodeId := nextNodeId st1 + 1 \<rparr>;
               st3 = record_step (rebuild path z) CREATE
                       (if path = [] then ''inserted as ROOT (temporary RED)'' else ''inserted RED leaf'')
                       [n_id z] None st2
           in case insert_fixup path z st3 of
                Inl e \<Rightarrow> Inl e
              | Inr (t, st4) \<Rightarrow>
                  (case blacken_root t st4 of
                     (t', st5) \<Rightarrow> Inr (end_call st0 (st5 \<lparr> tree_root := t' \<rparr>)))))"

text \<open>A sequence of insert calls; the first failure ends it.\<close>

fun insert_all :: "int list \<Rightarrow> rb_state \<Rightarrow> rb_error + rb_state" where
  "insert_all [] st = Inr st"
| "insert_all (k # ks) st =
     (case insert_rb k st of Inl e \<Rightarrow> Inl e | Inr (st', new) \<Rightarrow> insert_all ks st')"

subsection \<open>The five Red-Black invariants (section 3, a to e)\<close>

fun no_red_red :: "rbt \<Rightarrow> bool" where
  "no_red_red NIL = True"
| "no_red_red (Node i k c l r) =
     ((c = RED \<longrightarrow> color_of l = BLACK \<and> color_of r = BLACK) \<and> no_red_red l \<and> no_red_red r)"

text \<open>The number of BLACK nodes on each path from the root of \<open>t\<close> down to a NIL.\<close>

fun black_counts :: "rbt \<Rightarrow> nat list" where
  "black_counts NIL = [0]"
| "black_counts (Node i k c l r) =
     map (\<lambda>n. n + (if c = BLACK then 1 else 0)) (black_counts l @ black_counts r)"

text \<open>At every node, all paths down to a NIL carry the same number of BLACK nodes.\<close>

fun equal_black_paths :: "rbt \<Rightarrow> bool" where
  "equal_black_paths NIL = True"
| "equal_black_paths (Node i k c l r) =
     ((\<forall>x \<in> set (black_counts (Node i k c l r)).
         \<forall>y \<in> set (black_counts (Node i k c l r)). x = y) \<and>
      equal_black_paths l \<and> equal_black_paths r)"

fun inorder_keys :: "rbt \<Rightarrow> int list" where
  "inorder_keys NIL = []"
| "inorder_keys (Node i k c l r) = inorder_keys l @ [k] @ inorder_keys r"

definition rb_invariants :: "rbt \<Rightarrow> bool" where
  "rb_invariants t \<longleftrightarrow>
     (t = NIL \<or> color_of t = BLACK) \<and>
     color_of NIL = BLACK \<and>
     no_red_red t \<and>
     equal_black_paths t \<and>
     sorted_wrt (<) (inorder_keys t)"

subsection \<open>Auxiliary notions for the proofs about the engine\<close>

text \<open>The black height along the left spine and the usual recursive form of
  invariant (d); the invariant of the fix-up loop and what the loop returns; the keys
  to the left and to the right of the current position of a path.\<close>

fun bh :: "rbt \<Rightarrow> nat" where
  "bh NIL = 0"
| "bh (Node i k c l r) = bh l + (if c = BLACK then 1 else 0)"

fun bal :: "rbt \<Rightarrow> bool" where
  "bal NIL = True"
| "bal (Node i k c l r) = (bh l = bh r \<and> bal l \<and> bal r)"

definition fix_inv :: "frame list \<Rightarrow> rbt \<Rightarrow> bool" where
  "fix_inv p z \<longleftrightarrow>
     color_of z = RED \<and> no_red_red z \<and> no_red_red (rebuild p (paint BLACK z)) \<and>
     bal (rebuild p z) \<and> (p \<noteq> [] \<longrightarrow> color_of (rebuild p z) = BLACK)"

definition rb_ok :: "rbt \<Rightarrow> bool" where
  "rb_ok t \<longleftrightarrow> color_of t = BLACK \<and> no_red_red t \<and> bal t \<and> sorted_wrt (<) (inorder_keys t)"

text \<open>Cases B and C, on the grandparent subtree.\<close>

definition outer_result :: "frame \<Rightarrow> frame \<Rightarrow> rbt \<Rightarrow> rbt" where
  "outer_result p g z =
     rotate_away (f_side g) (recolor_outer (f_side g)
       (attach g (if f_side p \<noteq> f_side g then rotate_away (f_side p) (attach p z) else attach p z)))"

definition fix_post :: "frame list \<Rightarrow> rbt \<Rightarrow> rb_error + (rbt \<times> rb_state) \<Rightarrow> bool" where
  "fix_post p z res \<longleftrightarrow>
     (\<exists>t st'. res = Inr (t, st') \<and> inorder_keys t = inorder_keys (rebuild p z) \<and> bal t \<and>
        no_red_red (paint BLACK t))"

fun before :: "frame list \<Rightarrow> int list" where
  "before [] = []"
| "before (Frame LeftSide i k c sib # fs) = before fs"
| "before (Frame RightSide i k c sib # fs) = before fs @ inorder_keys sib @ [k]"

fun after :: "frame list \<Rightarrow> int list" where
  "after [] = []"
| "after (Frame LeftSide i k c sib # fs) = [k] @ inorder_keys sib @ after fs"
| "after (Frame RightSide i k c sib # fs) = after fs"

subsection \<open>Notions about the step log\<close>

text \<open>The log of \<open>st'\<close> is the log of \<open>st\<close> with steps appended.\<close>

definition log_extends :: "rb_state \<Rightarrow> rb_state \<Rightarrow> bool" where
  "log_extends st st' \<longleftrightarrow> (\<exists>new. steps st' = steps st @ new)"

text \<open>The rotation steps of a log, in order.\<close>

definition rotations :: "rb_state \<Rightarrow> step_kind list" where
  "rotations st = filter (\<lambda>k. k = ROTATE_LEFT \<or> k = ROTATE_RIGHT) (map st_type (steps st))"

section \<open>Rounding to a double\<close>

lemma pow2_powi: "pow2 e = 2 powi e"
  by (simp add: pow2_def power_int_def field_simps)

lemma pow2_pos [simp]: "0 < pow2 e"
  by (simp add: pow2_powi zero_less_power_int)

lemma pow2_nz [simp]: "pow2 e \<noteq> 0"
  by (metis pow2_pos less_irrefl)

lemma pow2_add: "pow2 (a + b) = pow2 a * pow2 b"
  by (simp add: pow2_powi power_int_add)

lemma pow2_nat: "pow2 (int n) = 2 ^ n"
  by (simp add: pow2_def)

lemma pow2_mono: "a \<le> b \<Longrightarrow> pow2 a \<le> pow2 b"
  by (simp add: pow2_powi power_int_increasing)

lemma pow2_strict_mono: "a < b \<Longrightarrow> pow2 a < pow2 b"
  by (simp add: pow2_powi power_int_strict_increasing)

lemma pow2_less_cancel: "pow2 a < pow2 b \<Longrightarrow> a < b"
  using pow2_mono[of b a] by (cases "a < b") auto

lemma pow2_diff: "pow2 a / pow2 b = pow2 (a - b)"
proof -
  have "pow2 a = pow2 (a - b) * pow2 b" using pow2_add[of "a - b" b] by simp
  then show ?thesis using pow2_pos[of b] by (simp add: field_simps)
qed

lemma bitlen_pow2:
  assumes "0 < n"
  shows "pow2 (bitlen n - 1) \<le> of_int n \<and> (of_int n :: rat) < pow2 (bitlen n)"
proof -
  have b: "2 ^ nat (bitlen n - 1) \<le> n" "n < 2 ^ nat (bitlen n)"
    using bitlen_bounds[OF assms] by auto
  have p: "0 < bitlen n"
  proof (rule ccontr)
    assume "\<not> 0 < bitlen n"
    then have "nat (bitlen n) = 0" by simp
    then show False using b(2) assms by simp
  qed
  have "(of_int (2 ^ nat (bitlen n - 1)) :: rat) \<le> of_int n" using b(1) of_int_le_iff by blast
  moreover have "(of_int n :: rat) < of_int (2 ^ nat (bitlen n))" using b(2) of_int_less_iff by blast
  ultimately show ?thesis using p by (simp add: pow2_def)
qed

lemma ilog2_bounds:
  assumes "0 < a"
  shows "pow2 (ilog2 a) \<le> a \<and> a < pow2 (ilog2 a + 1)"
proof -
  obtain n d where q: "quotient_of a = (n, d)" by force
  have d: "0 < d" using quotient_of_denom_pos[OF q] .
  have a: "a = of_int n / of_int d" using quotient_of_div[OF q] .
  have n: "0 < n" using assms d unfolding a by (simp add: zero_less_divide_iff)
  let ?k = "bitlen n - bitlen d"
  have bn: "pow2 (bitlen n - 1) \<le> of_int n" "(of_int n :: rat) < pow2 (bitlen n)"
    using bitlen_pow2[OF n] by auto
  have bd: "pow2 (bitlen d - 1) \<le> of_int d" "(of_int d :: rat) < pow2 (bitlen d)"
    using bitlen_pow2[OF d] by auto
  have dpos: "(0 :: rat) < of_int d" using d by simp
  have up: "a < pow2 (?k + 1)"
  proof -
    have "of_int n < pow2 (?k + 1) * pow2 (bitlen d - 1)"
      using bn(2) pow2_add[of "?k + 1" "bitlen d - 1"] by simp
    also have "\<dots> \<le> pow2 (?k + 1) * of_int d"
      using bd(1) by (simp add: mult_left_mono less_imp_le)
    finally show ?thesis unfolding a using dpos by (simp add: pos_divide_less_eq)
  qed
  have lo: "pow2 (?k - 1) \<le> a"
  proof -
    have "pow2 (?k - 1) * of_int d \<le> pow2 (?k - 1) * pow2 (bitlen d)"
      using bd(2) by (simp add: mult_left_mono less_imp_le)
    also have "\<dots> = pow2 (bitlen n - 1)"
      using pow2_add[of "?k - 1" "bitlen d"] by simp
    also have "\<dots> \<le> of_int n" using bn(1) .
    finally show ?thesis unfolding a using dpos by (simp add: pos_le_divide_eq)
  qed
  show ?thesis
  proof (cases "pow2 ?k \<le> a")
    case True
    then have "ilog2 a = ?k" by (simp add: ilog2_def q Let_def)
    then show ?thesis using True up by simp
  next
    case False
    then have "ilog2 a = ?k - 1" by (simp add: ilog2_def q Let_def)
    then show ?thesis using False lo by simp
  qed
qed

lemma round_even_int [simp]: "round_even (of_int z) = z"
  by (simp add: round_even_def Let_def)

lemma round_even_floor: "\<lfloor>q\<rfloor> \<le> round_even q"
  by (simp add: round_even_def Let_def)

text \<open>A number \<open>m * 2 ^ E\<close> with \<open>0 < m < 2 ^ 53\<close>, \<open>- 1074 \<le> E\<close> and below
  \<open>2 ^ 1024\<close> is a double: rounding leaves it as it is.\<close>

lemma to_double_exact:
  assumes x: "x = of_int m * pow2 E" and m: "0 < m" "m < 2 ^ 53"
    and E: "- 1074 \<le> E" and top: "x < pow2 1024"
  shows "to_double x = Num x"
proof -
  have xpos: "0 < x" unfolding x using m by simp
  let ?L = "ilog2 x"
  let ?e = "max (?L - 52) (- 1074)"
  have L: "pow2 ?L \<le> x" using ilog2_bounds[OF xpos] by simp
  have "(of_int m :: rat) < of_int (2 ^ 53)" using m(2) of_int_less_iff by blast
  then have "(of_int m :: rat) < pow2 53" by (simp add: pow2_def)
  then have "x < pow2 53 * pow2 E" unfolding x by simp
  then have "x < pow2 (53 + E)" by (simp add: pow2_add)
  then have "pow2 ?L < pow2 (53 + E)" using L by simp
  then have "?L < 53 + E" by (rule pow2_less_cancel)
  then have le: "?e \<le> E" using E by simp
  then obtain n where n: "E - ?e = int n" using zero_le_imp_eq_int[of "E - ?e"] by auto
  have "x / pow2 ?e = of_int m * (pow2 E / pow2 ?e)" unfolding x by simp
  also have "\<dots> = of_int m * 2 ^ n" by (simp only: pow2_diff n pow2_nat)
  also have "\<dots> = of_int (m * 2 ^ n)" by simp
  finally have q: "x / pow2 ?e = of_int (m * 2 ^ n)" .
  have "of_int (round_even (x / pow2 ?e)) * pow2 ?e = x / pow2 ?e * pow2 ?e"
    unfolding q by (simp only: round_even_int)
  also have "\<dots> = x" using pow2_pos[of ?e] by simp
  finally have v: "of_int (round_even (x / pow2 ?e)) * pow2 ?e = x" .
  have ax: "\<bar>x\<bar> = x" using xpos by simp
  show ?thesis
    unfolding to_double_def Let_def ax v using xpos top by simp
qed

lemma to_double_int:
  assumes "0 \<le> v" "v < 2 ^ 53"
  shows "to_double (of_int v) = Num (of_int v)"
proof (cases "v = 0")
  case True
  then show ?thesis by (simp add: to_double_def)
next
  case False
  then have pos: "0 < v" using assms by simp
  have "(of_int v :: rat) < of_int (2 ^ 53)" using assms(2) of_int_less_iff by blast
  also have "\<dots> = pow2 53" by (simp add: pow2_def)
  also have "\<dots> \<le> pow2 1024" by (rule pow2_mono) simp
  finally have top: "(of_int v :: rat) < pow2 1024" .
  show ?thesis
    by (rule to_double_exact[where m = v and E = 0, OF _ pos assms(2) _ top]) (simp_all add: pow2_def)
qed

text \<open>A positive result of at least \<open>2 ^ 1024\<close> overflows to \<open>Infinity\<close>.\<close>

lemma to_double_overflow:
  assumes "pow2 1024 \<le> x"
  shows "to_double x = Infinity"
proof -
  have xpos: "0 < x" using less_le_trans[OF pow2_pos[of 1024] assms] .
  let ?L = "ilog2 x"
  let ?e = "max (?L - 52) (- 1074)"
  have L: "pow2 ?L \<le> x" "x < pow2 (?L + 1)" using ilog2_bounds[OF xpos] by auto
  have "pow2 1024 < pow2 (?L + 1)" using assms L(2) by simp
  then have big: "1024 \<le> ?L" using pow2_less_cancel by fastforce
  then have e: "?e = ?L - 52" by simp
  have "(2 :: rat) ^ 52 = pow2 52" by (simp add: pow2_def)
  also have "\<dots> = pow2 ?L / pow2 ?e" unfolding e by (simp add: pow2_diff)
  also have "\<dots> \<le> x / pow2 ?e"
    by (rule divide_right_mono[OF L(1) less_imp_le[OF pow2_pos]])
  finally have "(of_int (2 ^ 52) :: rat) \<le> x / pow2 ?e" by simp
  then have "(2 ^ 52 :: int) \<le> \<lfloor>x / pow2 ?e\<rfloor>" by (simp only: le_floor_iff)
  then have "(2 ^ 52 :: int) \<le> round_even (x / pow2 ?e)"
    by (rule order_trans[OF _ round_even_floor])
  then have "(of_int (2 ^ 52) :: rat) \<le> of_int (round_even (x / pow2 ?e))"
    by (simp only: of_int_le_iff)
  then have "pow2 52 \<le> of_int (round_even (x / pow2 ?e))" by (simp add: pow2_def)
  then have "pow2 52 * pow2 ?e \<le> of_int (round_even (x / pow2 ?e)) * pow2 ?e"
    using pow2_pos[of ?e] by (simp add: mult_right_mono)
  moreover have "pow2 52 * pow2 ?e = pow2 ?L" unfolding e using pow2_add[of 52 "?L - 52"] by simp
  moreover have "pow2 1024 \<le> pow2 ?L" using big by (rule pow2_mono)
  ultimately have v: "pow2 1024 \<le> of_int (round_even (x / pow2 ?e)) * pow2 ?e" by simp
  have ax: "\<bar>x\<bar> = x" using xpos by simp
  show ?thesis
    unfolding to_double_def Let_def ax using xpos v by simp
qed

lemma to_double_pow2:
  assumes "- 1074 \<le> E" "E < 1024"
  shows "to_double (pow2 E) = Num (pow2 E)"
  by (rule to_double_exact[where m = 1 and E = E]) (simp_all add: assms pow2_strict_mono)

lemma js_mul_pow2:
  assumes "- 1074 \<le> a + b" "a + b < 1024"
  shows "js_mul (Num (pow2 a)) (Num (pow2 b)) = Num (pow2 (a + b))"
  using to_double_pow2[OF assms] by (simp add: pow2_add)

lemma js_mul_pow2_overflow:
  assumes "1024 \<le> a + b"
  shows "js_mul (Num (pow2 a)) (Num (pow2 b)) = Infinity"
  using to_double_overflow[OF pow2_mono[OF assms]] by (simp add: pow2_add)

text \<open>Above \<open>2 ^ 53\<close> not every integer is a double: \<open>2 ^ 53 + 1\<close> is rounded down to
  \<open>2 ^ 53\<close> and \<open>2 ^ 53 + 3\<close> up to \<open>2 ^ 53 + 4\<close> (ties to even).\<close>

lemma js_add_rounds:
  "js_add (Num 9007199254740992) (Num 1) = Num 9007199254740992 \<and>
   js_add (Num 9007199254740992) (Num 3) = Num 9007199254740996"
  by code_simp

section \<open>The matrix-chain loops establish the recurrence\<close>

declare kloop.simps [simp del] iloop.simps [simp del] lloop.simps [simp del]

lemma sq_set2:
  assumes "sq N t"
  shows "sq N (set2 t i j v)"
proof (cases "i < length t")
  case True
  then show ?thesis
    using assms unfolding sq_def set2_def
    by (auto dest!: set_update_subset_insert[THEN subsetD])
next
  case False
  then show ?thesis using assms by (simp add: set2_def list_update_beyond)
qed

lemma nth_set2:
  "sq N t \<Longrightarrow> a < N \<Longrightarrow> b < N \<Longrightarrow>
   set2 t i j v ! a ! b = (if a = i \<and> b = j then v else t ! a ! b)"
proof -
  assume h: "sq N t" "a < N" "b < N"
  then have len: "length t = N" "length (t ! a) = N" by (auto simp: sq_def)
  show ?thesis
  proof (cases "a = i")
    case True
    then show ?thesis using h len by (simp add: set2_def)
  next
    case False
    then show ?thesis using h len by (simp add: set2_def)
  qed
qed

lemma js_not_less_trans:
  "\<not> js_less b a \<Longrightarrow> \<not> js_less c b \<Longrightarrow> b \<noteq> NaN \<Longrightarrow> \<not> js_less c a"
  by (cases a; cases b; cases c) auto

lemma js_less_not_NaN: "js_less a b \<Longrightarrow> a \<noteq> NaN \<and> b \<noteq> NaN"
  by (cases a; cases b) auto

lemma js_less_irrefl: "\<not> js_less a a"
  by (cases a) auto

lemma js_less_not_sym: "js_less a b \<Longrightarrow> \<not> js_less b a"
  by (cases a; cases b) auto

lemma cost_cong:
  assumes "i < j" "i \<le> k" "k < j" "j < N"
    and "\<forall>a b. a < N \<longrightarrow> b < N \<longrightarrow> (a, b) \<noteq> (i, j) \<longrightarrow> m' ! a ! b = m ! a ! b"
  shows "cost p m' i k j = cost p m i k j"
proof -
  have "m' ! i ! k = m ! i ! k" using assms by auto
  moreover have "m' ! (k + 1) ! j = m ! (k + 1) ! j" using assms by auto
  ultimately show ?thesis by (simp add: cost_def)
qed

lemma kloop_spec:
  "sq N m \<Longrightarrow> sq N s \<Longrightarrow> i < j \<Longrightarrow> j < N \<Longrightarrow> i \<le> k \<Longrightarrow> k \<le> j \<Longrightarrow>
   m ! i ! j \<noteq> NaN \<Longrightarrow>
   kpost p N i j k (m, s) (kloop p i j k (m, s))"
proof (induction p i j k "(m, s)" arbitrary: m s rule: kloop.induct)
  case (1 p i j k m s)
  show ?case
  proof (cases "k < j")
    case False
    then have "kloop p i j k (m, s) = (m, s)" by (simp add: kloop.simps[of p i j k m s])
    then show ?thesis using False "1.prems" by (auto simp: kpost_def js_less_irrefl)
  next
    case kj: True
    let ?c = "cost p m i k j"
    show ?thesis
    proof (cases "js_less ?c (m ! i ! j)")
      case True
      let ?m1 = "set2 m i j ?c" and ?s1 = "set2 s i j (int k)"
      obtain m' s' where res: "kloop p i j (k + 1) (?m1, ?s1) = (m', s')" by force
      have sq1: "sq N ?m1" "sq N ?s1" using "1.prems" by (auto intro: sq_set2)
      have ij: "i < N" "j < N" using "1.prems" by auto
      have cn: "?c \<noteq> NaN" using js_less_not_NaN[OF True] by simp
      have v1: "?m1 ! i ! j = ?c" "?s1 ! i ! j = int k"
        using "1.prems" ij by (auto simp: nth_set2)
      have nn1: "?m1 ! i ! j \<noteq> NaN" using cn v1 by simp
      have IH: "kpost p N i j (k + 1) (?m1, ?s1) (m', s')"
        using "1.hyps"(1)[OF kj refl True sq1 "1.prems"(3,4) _ _ nn1] kj "1.prems"(5) res by simp
      have same: "\<forall>a b. a < N \<longrightarrow> b < N \<longrightarrow> (a, b) \<noteq> (i, j) \<longrightarrow> ?m1 ! a ! b = m ! a ! b"
        using "1.prems" by (auto simp: nth_set2)
      have cc: "\<And>k'. i \<le> k' \<Longrightarrow> k' < j \<Longrightarrow> cost p ?m1 i k' j = cost p m i k' j"
        using cost_cong[OF "1.prems"(3) _ _ "1.prems"(4) same] by blast
      have eq: "kloop p i j k (m, s) = (m', s')"
        using kj True res by (simp add: Let_def kloop.simps[of p i j k m s])
      have a: "sq N m'" "sq N s'" using IH by (auto simp: kpost_def)
      have b: "\<forall>a b. a < N \<longrightarrow> b < N \<longrightarrow> (a, b) \<noteq> (i, j) \<longrightarrow> m' ! a ! b = m ! a ! b \<and> s' ! a ! b = s ! a ! b"
        using IH "1.prems" by (auto simp: kpost_def nth_set2)
      have le1: "\<not> js_less ?c (m' ! i ! j)" using IH v1 by (auto simp: kpost_def)
      have c: "\<forall>k'. k \<le> k' \<and> k' < j \<longrightarrow> \<not> js_less (cost p m i k' j) (m' ! i ! j)"
      proof (intro allI impI)
        fix k' assume h: "k \<le> k' \<and> k' < j"
        show "\<not> js_less (cost p m i k' j) (m' ! i ! j)"
        proof (cases "k' = k")
          case True then show ?thesis using le1 by simp
        next
          case False
          then have "k + 1 \<le> k' \<and> k' < j" using h by simp
          then have "\<not> js_less (cost p ?m1 i k' j) (m' ! i ! j)" using IH by (auto simp: kpost_def)
          moreover have "i \<le> k'" using h "1.prems"(5) by simp
          ultimately show ?thesis using cc h by simp
        qed
      qed
      have d: "\<not> js_less (m ! i ! j) (m' ! i ! j)"
        using js_not_less_trans[OF le1 js_less_not_sym[OF True] cn] .
      have nn: "m' ! i ! j \<noteq> NaN" using IH by (auto simp: kpost_def)
      have e: "\<exists>k'. k \<le> k' \<and> k' < j \<and> s' ! i ! j = int k' \<and> m' ! i ! j = cost p m i k' j"
      proof -
        from IH have "(m' ! i ! j = ?m1 ! i ! j \<and> s' ! i ! j = ?s1 ! i ! j) \<or>
          (\<exists>k'. k + 1 \<le> k' \<and> k' < j \<and> s' ! i ! j = int k' \<and> m' ! i ! j = cost p ?m1 i k' j)"
          by (auto simp: kpost_def)
        then show ?thesis
        proof
          assume "m' ! i ! j = ?m1 ! i ! j \<and> s' ! i ! j = ?s1 ! i ! j"
          then show ?thesis using v1 kj by auto
        next
          assume "\<exists>k'. k + 1 \<le> k' \<and> k' < j \<and> s' ! i ! j = int k' \<and> m' ! i ! j = cost p ?m1 i k' j"
          then obtain k' where k': "k + 1 \<le> k'" "k' < j" "s' ! i ! j = int k'" "m' ! i ! j = cost p ?m1 i k' j" by blast
          then have "i \<le> k'" using "1.prems"(5) by simp
          then show ?thesis using k' cc by (intro exI[of _ k']) auto
        qed
      qed
      show ?thesis unfolding eq kpost_def using a b c d e nn by simp
    next
      case False
      obtain m' s' where res: "kloop p i j (k + 1) (m, s) = (m', s')" by force
      have IH: "kpost p N i j (k + 1) (m, s) (m', s')"
        using "1.hyps"(2)[OF kj refl False "1.prems"(1,2,3,4) _ _ "1.prems"(7)] kj "1.prems"(5) res
        by simp
      have eq: "kloop p i j k (m, s) = (m', s')"
        using kj False res by (simp add: Let_def kloop.simps[of p i j k m s])
      have d: "\<not> js_less (m ! i ! j) (m' ! i ! j)" using IH by (auto simp: kpost_def)
      have c: "\<forall>k'. k \<le> k' \<and> k' < j \<longrightarrow> \<not> js_less (cost p m i k' j) (m' ! i ! j)"
      proof (intro allI impI)
        fix k' assume h: "k \<le> k' \<and> k' < j"
        show "\<not> js_less (cost p m i k' j) (m' ! i ! j)"
        proof (cases "k' = k")
          case True
          then show ?thesis using js_not_less_trans[OF d False "1.prems"(7)] by simp
        next
          case False
          then have "k + 1 \<le> k' \<and> k' < j" using h by simp
          then show ?thesis using IH by (auto simp: kpost_def)
        qed
      qed
      have rest: "sq N m'" "sq N s'" "m' ! i ! j \<noteq> NaN"
        "\<forall>a b. a < N \<longrightarrow> b < N \<longrightarrow> (a, b) \<noteq> (i, j) \<longrightarrow> m' ! a ! b = m ! a ! b \<and> s' ! a ! b = s ! a ! b"
        "(m' ! i ! j = m ! i ! j \<and> s' ! i ! j = s ! i ! j) \<or>
        (\<exists>k'. k \<le> k' \<and> k' < j \<and> s' ! i ! j = int k' \<and> m' ! i ! j = cost p m i k' j)"
        using IH by (auto simp: kpost_def)
      show ?thesis unfolding eq kpost_def using rest c d by simp
    qed
  qed
qed


lemma cost_same_but:
  assumes "same_but N i j (m, s) (m', s')" "a \<le> k" "k < b" "b < N" "\<not> (a \<le> i \<and> j \<le> b)"
  shows "cost p m' a k b = cost p m a k b"
proof -
  have "(a, k) \<noteq> (i, j)" "(k + 1, b) \<noteq> (i, j)" using assms by auto
  moreover have "a < N" "k < N" "k + 1 < N" using assms by auto
  ultimately have "m' ! a ! k = m ! a ! k" "m' ! (k + 1) ! b = m ! (k + 1) ! b"
    using assms(1,4) unfolding same_but_def by auto
  then show ?thesis by (simp add: cost_def)
qed

lemma cell_ok_same_but:
  assumes sb: "same_but N i j (m, s) (m', s')" and ab: "a \<le> b" "b < N"
    and out: "\<not> (a \<le> i \<and> j \<le> b)"
  shows "cell_ok p m' s' a b = cell_ok p m s a b"
proof -
  have ne: "(a, b) \<noteq> (i, j)" using out ab by auto
  have aN: "a < N" using ab by simp
  have c: "m' ! a ! b = m ! a ! b" "s' ! a ! b = s ! a ! b"
    using sb ne aN ab(2) unfolding same_but_def by auto
  have k: "\<And>k. a \<le> k \<Longrightarrow> k < b \<Longrightarrow> cost p m' a k b = cost p m a k b"
    using cost_same_but[OF sb _ _ ab(2) out] by blast
  show ?thesis unfolding cell_ok_def c using k by auto
qed

lemma is_done_step:
  assumes "1 \<le> i" "i + l \<le> N" "2 \<le> l"
  shows "is_done N l (i + 1) a b \<longleftrightarrow> is_done N l i a b \<or> (a, b) = (i, i + l - 1)"
  using assms unfolding is_done_def by auto

lemma is_done_next:
  assumes "\<not> i + l \<le> N"
  shows "is_done N (l + 1) 1 a b \<longleftrightarrow> is_done N l i a b"
  using assms unfolding is_done_def by auto

lemma istep:
  assumes I: "dp_inv p N l i (m, s)" and b: "1 \<le> i" "2 \<le> l" "i + l \<le> N"
  shows "dp_inv p N l (i + 1) (kloop p i (i + l - 1) i (set2 m i (i + l - 1) Infinity, s))"
proof -
  let ?j = "i + l - 1"
  let ?m1 = "set2 m i ?j Infinity"
  obtain m' s' where res: "kloop p i ?j i (?m1, s) = (m', s')" by force
  have sqm: "sq N m" "sq N s" using I by (auto simp: dp_inv_def)
  have ij: "i < ?j" "?j < N" "i < N" using b by auto
  have sq1: "sq N ?m1" using sqm(1) by (rule sq_set2)
  have v1: "?m1 ! i ! ?j = Infinity" using sqm ij by (simp add: nth_set2)
  have nn: "?m1 ! i ! ?j \<noteq> NaN" using v1 by simp
  have kp: "kpost p N i ?j i (?m1, s) (m', s')"
    using kloop_spec[OF sq1 sqm(2) ij(1,2) _ _ nn, where k = i and p = p] res ij by simp
  have sb1: "same_but N i ?j (m, s) (?m1, s)"
    using sqm by (auto simp: same_but_def nth_set2)
  have sb2: "same_but N i ?j (?m1, s) (m', s')"
    using kp by (auto simp: same_but_def kpost_def)
  have sb: "same_but N i ?j (m, s) (m', s')"
    using sb1 sb2 unfolding same_but_def by auto
  have nd: "\<not> is_done N l i i ?j" using b by (auto simp: is_done_def)
  have s0: "s ! i ! ?j = 0" using I ij nd unfolding dp_inv_def by auto
  have lb1: "\<forall>k. i \<le> k \<and> k < ?j \<longrightarrow> \<not> js_less (cost p ?m1 i k ?j) (m' ! i ! ?j)"
    using kp by (auto simp: kpost_def)
  have att1: "(\<exists>k. i \<le> k \<and> k < ?j \<and> s' ! i ! ?j = int k \<and> m' ! i ! ?j = cost p ?m1 i k ?j) \<or>
      (m' ! i ! ?j = Infinity \<and> s' ! i ! ?j = 0)"
    using kp v1 s0 by (auto simp: kpost_def)
  have cc: "\<And>k. i \<le> k \<Longrightarrow> k < ?j \<Longrightarrow> cost p m' i k ?j = cost p ?m1 i k ?j"
    using cost_cong[OF ij(1) _ _ ij(2), where m' = m' and m = ?m1 and p = p] sb2
    unfolding same_but_def by auto
  have att: "(\<exists>k. i \<le> k \<and> k < ?j \<and> s' ! i ! ?j = int k \<and> m' ! i ! ?j = cost p m' i k ?j) \<or>
      (m' ! i ! ?j = Infinity \<and> s' ! i ! ?j = 0)"
    using att1 cc by metis
  have lb: "\<forall>k. i \<le> k \<and> k < ?j \<longrightarrow> \<not> js_less (cost p m' i k ?j) (m' ! i ! ?j)"
    using lb1 cc by metis
  have ne: "i \<noteq> ?j" using ij by simp
  have new: "cell_ok p m' s' i ?j"
    unfolding cell_ok_def using ne att lb by simp
  have cells: "cell_ok p m' s' a b" if h: "is_done N l (i + 1) a b" for a b
  proof (cases "(a, b) = (i, ?j)")
    case True then show ?thesis using new by simp
  next
    case False
    then have old: "is_done N l i a b" using h is_done_step[OF b(1,3,2)] by blast
    then have out: "\<not> (a \<le> i \<and> ?j \<le> b)" using b False unfolding is_done_def by auto
    have ab: "a \<le> b" "b < N" using old unfolding is_done_def by auto
    have "cell_ok p m s a b" using I old unfolding dp_inv_def by auto
    then show ?thesis using cell_ok_same_but[OF sb ab out, of p] by simp
  qed
  have rest: "s' ! a ! b = 0" if h: "a < N \<and> b < N \<and> \<not> is_done N l (i + 1) a b" for a b
  proof -
    have n1: "\<not> is_done N l i a b" "(a, b) \<noteq> (i, ?j)"
      using h is_done_step[OF b(1,3,2), of a b] by auto
    then have "s' ! a ! b = s ! a ! b" using sb h unfolding same_but_def by auto
    moreover have "s ! a ! b = 0" using I h n1(1) unfolding dp_inv_def by auto
    ultimately show ?thesis by simp
  qed
  have "sq N m'" "sq N s'" using kp by (auto simp: kpost_def)
  then show ?thesis unfolding res dp_inv_def using cells rest by simp
qed

lemma iloop_inv:
  "dp_inv p N l i (m, s) \<Longrightarrow> 1 \<le> i \<Longrightarrow> 2 \<le> l \<Longrightarrow> N = length p \<Longrightarrow>
   dp_inv p N (l + 1) 1 (iloop p l i (m, s))"
proof (induction p l i "(m, s)" arbitrary: m s rule: iloop.induct)
  case (1 p l i m s)
  show ?case
  proof (cases "i + l \<le> length p")
    case True
    obtain m' s' where res: "kloop p i (i + l - 1) i (set2 m i (i + l - 1) Infinity, s) = (m', s')"
      by force
    have "dp_inv p N l (i + 1) (m', s')"
      using istep[OF "1.prems"(1,2,3)] True "1.prems"(4) res by simp
    then have "dp_inv p N (l + 1) 1 (iloop p l (i + 1) (m', s'))"
      using "1.hyps"[OF True refl res] "1.prems" by simp
    then show ?thesis using True res by (simp add: Let_def iloop.simps[of p l i m s])
  next
    case False
    then have "\<not> i + l \<le> N" using "1.prems"(4) by simp
    then have "\<And>a b. is_done N (l + 1) 1 a b \<longleftrightarrow> is_done N l i a b"
      by (rule is_done_next)
    then have "dp_inv p N (l + 1) 1 (m, s)"
      using "1.prems"(1) unfolding dp_inv_def by simp
    then show ?thesis using False by (simp add: iloop.simps[of p l i m s])
  qed
qed

lemma lloop_inv:
  "dp_inv p N l 1 (m, s) \<Longrightarrow> 2 \<le> l \<Longrightarrow> N = length p \<Longrightarrow>
   dp_inv p N (max l N) 1 (lloop p l (m, s))"
proof (induction p l "(m, s)" arbitrary: m s rule: lloop.induct)
  case (1 p l m s)
  show ?case
  proof (cases "l < length p")
    case True
    obtain m' s' where res: "iloop p l 1 (m, s) = (m', s')" by force
    have "dp_inv p N (l + 1) 1 (m', s')"
      using iloop_inv[OF "1.prems"(1) _ "1.prems"(2,3)] res by simp
    then have "dp_inv p N (max (l + 1) N) 1 (lloop p (l + 1) (m', s'))"
      using "1.hyps"[OF True res] "1.prems" by simp
    moreover have "max (l + 1) N = max l N" using True "1.prems" by simp
    ultimately show ?thesis using True res by (simp add: lloop.simps[of p l m s])
  next
    case False
    then have "max l N = l" using "1.prems" by simp
    then show ?thesis using False "1.prems" by (simp add: lloop.simps[of p l m s])
  qed
qed

lemma nth_zero_m: "a < N \<Longrightarrow> b < N \<Longrightarrow> zero_m N ! a ! b = Num 0"
  by (simp add: zero_m_def)

lemma dp_inv_init: "dp_inv p N 2 1 (zero_m N, zero_s N)"
  unfolding dp_inv_def
  by (auto simp: sq_def zero_m_def zero_s_def cell_ok_def is_done_def)

lemma lloop_dp:
  assumes "lloop p 2 (zero_m (length p), zero_s (length p)) = (m, s)"
  shows "dp_computed p m s"
proof -
  let ?N = "length p"
  have "dp_inv p ?N (max 2 ?N) 1 (m, s)"
    using lloop_inv[OF dp_inv_init[of p ?N]] assms by simp
  then have all: "\<And>a b. 1 \<le> a \<Longrightarrow> a \<le> b \<Longrightarrow> b < ?N \<Longrightarrow> cell_ok p m s a b"
    unfolding dp_inv_def is_done_def by auto
  show ?thesis unfolding dp_computed_def
  proof (intro conjI allI impI)
    fix i assume "1 \<le> i \<and> i < length p"
    then show "m ! i ! i = Num 0" using all[of i i] by (simp add: cell_ok_def)
  next
    fix i j k assume h: "1 \<le> i \<and> i < j \<and> j < length p" and k: "i \<le> k \<and> k < j"
    then have c: "cell_ok p m s i j" using all[of i j] by simp
    show "\<not> js_less (cost p m i k j) (m ! i ! j)" using c h k by (simp add: cell_ok_def)
  next
    fix i j assume h: "1 \<le> i \<and> i < j \<and> j < length p"
    then have c: "cell_ok p m s i j" using all[of i j] by simp
    show "(\<exists>k. i \<le> k \<and> k < j \<and> s ! i ! j = int k \<and> m ! i ! j = cost p m i k j) \<or>
         (m ! i ! j = Infinity \<and> s ! i ! j = 0)"
      using c h by (simp add: cell_ok_def)
  qed
qed

declare dloop.simps [simp del] kloop_u.simps [simp del] iloop_u.simps [simp del]
  lloop_u.simps [simp del]

lemma kloop_u_eq: "kloop_u p i j k t = kloop p i j k t"
proof (induction p i j k t rule: kloop.induct)
  case (1 p i j k m s)
  show ?case
    using 1 by (simp add: kloop.simps[of p i j k m s] kloop_u.simps[of p i j k m s] Let_def cost_def)
qed

lemma iloop_u_eq: "iloop_u p l i t = iloop p l i t"
proof (induction p l i t rule: iloop.induct)
  case (1 p l i m s)
  show ?case
    using 1 by (simp add: iloop.simps[of p l i m s] iloop_u.simps[of p l i m s] Let_def kloop_u_eq)
qed

lemma lloop_u_eq: "lloop_u p l t = lloop p l t"
proof (induction p l t rule: lloop.induct)
  case (1 p l m s)
  show ?case
    using 1 by (simp add: lloop.simps[of p l m s] lloop_u.simps[of p l m s] iloop_u_eq)
qed

lemma replicate_update_same: "(replicate n x)[i := x] = replicate n x"
  by (induction n arbitrary: i) (auto split: nat.split)

lemma set2_zero_m: "set2 (zero_m N) i i (Num 0) = zero_m N"
proof (cases "i < N")
  case True
  then show ?thesis by (simp add: set2_def zero_m_def replicate_update_same)
next
  case False
  then show ?thesis by (simp add: set2_def zero_m_def list_update_beyond)
qed

lemma dloop_zero_m: "dloop N i (zero_m N) = zero_m N"
proof (induction "N - i" arbitrary: i)
  case 0
  then show ?case by (simp add: dloop.simps[of N i])
next
  case (Suc d)
  then have "dloop N (i + 1) (zero_m N) = zero_m N" by simp
  then show ?case by (simp add: dloop.simps[of N i] set2_zero_m)
qed

lemma matrixChainOrder_u_tables:
  "ms_m (matrixChainOrder_u p) = mc_m (matrixChainOrder p) \<and>
   ms_s (matrixChainOrder_u p) = mc_s (matrixChainOrder p)"
  by (simp add: matrixChainOrder_u_def matrixChainOrder_def Let_def dloop_zero_m lloop_u_eq
      split: prod.splits)

lemma matrixChainOrder_dp:
  "dp_computed p (mc_m (matrixChainOrder p)) (mc_s (matrixChainOrder p))"
  using lloop_dp[of p]
  by (auto simp: matrixChainOrder_def Let_def split: prod.splits)

section \<open>On exactly representable dimensions the loops compute the exact recurrence\<close>

declare mc_opt.simps [simp del]

lemma mc_opt_diag: "mc_opt d i i = 0"
  by (simp add: mc_opt.simps[of d i i])

lemma mc_opt_rec:
  "i < j \<Longrightarrow>
   mc_opt d i j =
     Min ((\<lambda>k. mc_opt d i k + mc_opt d (k + 1) j + d ! (i - 1) * d ! k * d ! j) ` {i..<j})"
  by (simp add: mc_opt.simps[of d i j])

lemma js_mul_int:
  assumes "0 \<le> x" "0 \<le> y" "x * y < 2 ^ 53"
  shows "js_mul (Num (of_int x)) (Num (of_int y)) = Num (of_int (x * y))"
proof -
  have "0 \<le> x * y" using assms by simp
  then show ?thesis using to_double_int[of "x * y"] assms(3) by simp
qed

lemma js_add_int:
  assumes "0 \<le> x" "0 \<le> y" "x + y < 2 ^ 53"
  shows "js_add (Num (of_int x)) (Num (of_int y)) = Num (of_int (x + y))"
proof -
  have "0 \<le> x + y" using assms by simp
  then show ?thesis using to_double_int[of "x + y"] assms(3) by simp
qed

lemma cube_bounds:
  assumes "0 \<le> x" "x \<le> M" "0 \<le> y" "y \<le> M" "0 \<le> z" "z \<le> (M :: int)"
  shows "x * y \<le> M ^ 3 \<or> x * y \<le> 1" "x * y * z \<le> M ^ 3"
proof -
  have M: "0 \<le> M" using assms by simp
  have xy: "x * y \<le> M * M" using assms by (simp add: mult_mono)
  have "x * y * z \<le> (M * M) * M" using assms xy M by (intro mult_mono) simp_all
  then show "x * y * z \<le> M ^ 3" by (simp add: power3_eq_cube)
  show "x * y \<le> M ^ 3 \<or> x * y \<le> 1"
  proof (cases "M \<le> 1")
    case True
    then have "M * M \<le> 1 * 1" using M by (intro mult_mono) simp_all
    then show ?thesis using xy by simp
  next
    case False
    then have "M * M * 1 \<le> M * M * M" using M by (intro mult_left_mono) simp_all
    then show ?thesis using xy by (simp add: power3_eq_cube)
  qed
qed

lemma cost_exact:
  assumes m: "m ! i ! k = Num (of_int A)" "m ! (k + 1) ! j = Num (of_int B)"
    and p: "p ! (i - 1) = Num (of_int x)" "p ! k = Num (of_int y)" "p ! j = Num (of_int z)"
    and nn: "0 \<le> A" "0 \<le> B" "0 \<le> x" "x \<le> M" "0 \<le> y" "y \<le> M" "0 \<le> z" "z \<le> M"
    and b: "A + B + M ^ 3 < 2 ^ 53"
  shows "cost p m i k j = Num (of_int (A + B + x * y * z))"
proof -
  have "0 \<le> M" using nn by simp
  then have M3: "0 \<le> M ^ 3" by (rule zero_le_power)
  have c: "x * y \<le> M ^ 3 \<or> x * y \<le> 1" "x * y * z \<le> M ^ 3"
    using cube_bounds[OF nn(3-8)] by auto
  have xy: "0 \<le> x * y" using nn by simp
  have "x * y < 2 ^ 53" using c(1) b nn M3 by auto
  then have 1: "js_mul (Num (of_int x)) (Num (of_int y)) = Num (of_int (x * y))"
    using js_mul_int nn by simp
  have "x * y * z < 2 ^ 53" using c(2) b nn by simp
  then have 2: "js_mul (Num (of_int (x * y))) (Num (of_int z)) = Num (of_int (x * y * z))"
    using js_mul_int[OF xy nn(7)] by simp
  have "A + B < 2 ^ 53" using b M3 by linarith
  then have 3: "js_add (Num (of_int A)) (Num (of_int B)) = Num (of_int (A + B))"
    using js_add_int nn by simp
  have "0 \<le> A + B" "0 \<le> x * y * z" "A + B + x * y * z < 2 ^ 53" using nn c(2) b by simp_all
  then have 4: "js_add (Num (of_int (A + B))) (Num (of_int (x * y * z))) =
      Num (of_int (A + B + x * y * z))"
    using js_add_int by blast
  show ?thesis unfolding cost_def m p 1 2 3 4 ..
qed

lemma exact_cells:
  assumes ex: "exact_dims d M" and dp: "dp_computed (dims d) m s"
  shows "1 \<le> i \<Longrightarrow> i \<le> j \<Longrightarrow> j < length d \<Longrightarrow>
    m ! i ! j = Num (of_int (mc_opt d i j)) \<and> 0 \<le> mc_opt d i j \<and>
    mc_opt d i j \<le> int (j - i) * M ^ 3 \<and>
    (i < j \<longrightarrow> (\<exists>k. i \<le> k \<and> k < j \<and> s ! i ! j = int k \<and>
       mc_opt d i j = mc_opt d i k + mc_opt d (k + 1) j + d ! (i - 1) * d ! k * d ! j))"
proof (induction "j - i" arbitrary: i j rule: less_induct)
  case less
  have len: "length (dims d) = length d" by (simp add: dims_def)
  show ?case
  proof (cases "i = j")
    case True
    have "m ! i ! i = Num 0" using dp less.prems True unfolding dp_computed_def len by auto
    then show ?thesis using True by (simp add: mc_opt_diag)
  next
    case False
    then have ij: "i < j" using less.prems by simp
    let ?F = "\<lambda>k. mc_opt d i k + mc_opt d (k + 1) j + d ! (i - 1) * d ! k * d ! j"
    have el: "\<And>a. a < length d \<Longrightarrow> 0 \<le> d ! a \<and> d ! a \<le> M"
      using ex unfolding exact_dims_def by auto
    have "0 < length d" using less.prems(3) by linarith
    then have M0: "0 \<le> M" using el[of 0] by linarith
    then have M3: "0 \<le> M ^ 3" by (rule zero_le_power)
    have big: "int (length d - 1) * M ^ 3 < 2 ^ 53" using ex unfolding exact_dims_def by simp
    have span: "int (j - i) * M ^ 3 \<le> int (length d - 1) * M ^ 3"
      using less.prems M3 by (intro mult_right_mono) auto
    have pn: "\<And>a. a < length d \<Longrightarrow> dims d ! a = Num (of_int (d ! a))"
      by (simp add: dims_def)
    have ck: "cost (dims d) m i k j = Num (of_int (?F k)) \<and> 0 \<le> ?F k \<and> ?F k \<le> int (j - i) * M ^ 3"
      if k: "i \<le> k" "k < j" for k
    proof -
      have l: "m ! i ! k = Num (of_int (mc_opt d i k)) \<and> 0 \<le> mc_opt d i k \<and>
          mc_opt d i k \<le> int (k - i) * M ^ 3"
        using less.hyps[of k i] k less.prems by simp
      have r: "m ! (k + 1) ! j = Num (of_int (mc_opt d (k + 1) j)) \<and> 0 \<le> mc_opt d (k + 1) j \<and>
          mc_opt d (k + 1) j \<le> int (j - (k + 1)) * M ^ 3"
        using less.hyps[of j "k + 1"] k less.prems by simp
      have e: "0 \<le> d ! (i - 1) \<and> d ! (i - 1) \<le> M" "0 \<le> d ! k \<and> d ! k \<le> M"
        "0 \<le> d ! j \<and> d ! j \<le> M"
        using el[of "i - 1"] el[of k] el[of j] k less.prems by auto
      have "int (k - i) * M ^ 3 + int (j - (k + 1)) * M ^ 3 + M ^ 3 = int (j - i) * M ^ 3"
      proof -
        have "int (k - i) + int (j - (k + 1)) + 1 = int (j - i)" using k by simp
        then show ?thesis by (metis distrib_right mult_1)
      qed
      then have sum: "mc_opt d i k + mc_opt d (k + 1) j + M ^ 3 \<le> int (j - i) * M ^ 3"
        using l r by simp
      then have b: "mc_opt d i k + mc_opt d (k + 1) j + M ^ 3 < 2 ^ 53"
        using span big by simp
      have c: "cost (dims d) m i k j = Num (of_int (?F k))"
        using cost_exact[where p = "dims d" and m = m and i = i and k = k and j = j
            and A = "mc_opt d i k" and B = "mc_opt d (k + 1) j"
            and x = "d ! (i - 1)" and y = "d ! k" and z = "d ! j" and M = M]
          l r e b pn[of "i - 1"] pn[of k] pn[of j] k less.prems
        by simp
      have prod: "d ! (i - 1) * d ! k * d ! j \<le> M ^ 3"
        using cube_bounds(2)[of "d ! (i - 1)" M "d ! k" "d ! j"] e by simp
      have "0 \<le> d ! (i - 1) * d ! k * d ! j" using e by simp
      then show ?thesis using c l r sum prod by simp
    qed
    have h: "1 \<le> i \<and> i < j \<and> j < length (dims d)" using less.prems ij len by simp
    have lb: "\<And>k. i \<le> k \<Longrightarrow> k < j \<Longrightarrow> \<not> js_less (cost (dims d) m i k j) (m ! i ! j)"
      using dp h unfolding dp_computed_def by blast
    have alt: "(\<exists>k. i \<le> k \<and> k < j \<and> s ! i ! j = int k \<and> m ! i ! j = cost (dims d) m i k j) \<or>
        (m ! i ! j = Infinity \<and> s ! i ! j = 0)"
      using dp h unfolding dp_computed_def by blast
    have "m ! i ! j \<noteq> Infinity"
    proof
      assume "m ! i ! j = Infinity"
      then have "\<not> js_less (cost (dims d) m i i j) Infinity" using lb[of i] ij by simp
      then show False using ck[of i] ij by simp
    qed
    then obtain k0 where k0: "i \<le> k0" "k0 < j" "s ! i ! j = int k0"
      "m ! i ! j = cost (dims d) m i k0 j"
      using alt by blast
    have mv: "m ! i ! j = Num (of_int (?F k0))" using k0 ck[of k0] by simp
    have least: "?F k0 \<le> ?F k" if "k \<in> {i..<j}" for k
    proof -
      have "\<not> js_less (Num (of_int (?F k))) (Num (of_int (?F k0)))"
        using lb[of k] ck[of k] mv that by simp
      then have "\<not> (of_int (?F k) :: rat) < of_int (?F k0)" unfolding js_less.simps .
      then have "\<not> ?F k < ?F k0" unfolding of_int_less_iff .
      then show ?thesis by linarith
    qed
    have "Min (?F ` {i..<j}) = ?F k0"
    proof (rule Min_eqI)
      show "finite (?F ` {i..<j})" by simp
      show "\<And>y. y \<in> ?F ` {i..<j} \<Longrightarrow> ?F k0 \<le> y" using least by auto
      show "?F k0 \<in> ?F ` {i..<j}" using k0 by auto
    qed
    then have opt: "mc_opt d i j = ?F k0" using mc_opt_rec[OF ij, of d] by simp
    have "\<exists>k. i \<le> k \<and> k < j \<and> s ! i ! j = int k \<and> mc_opt d i j = ?F k"
      using k0 opt by blast
    then show ?thesis using mv opt ck[of k0] k0 by simp
  qed
qed

lemma dp_computed_exact:
  assumes "exact_dims d M" "dp_computed (dims d) m s"
  shows "dp_exact d m s"
  unfolding dp_exact_def
proof (intro conjI allI impI)
  fix i assume "1 \<le> i \<and> i < length d"
  then show "m ! i ! i = Num 0"
    using exact_cells[OF assms, of i i] by (simp add: mc_opt_diag)
next
  fix i j assume h: "1 \<le> i \<and> i < j \<and> j < length d"
  then show "m ! i ! j = Num (of_int (mc_opt d i j))"
    using exact_cells[OF assms, of i j] by simp
next
  fix i j assume h: "1 \<le> i \<and> i < j \<and> j < length d"
  then show "\<exists>k. i \<le> k \<and> k < j \<and> s ! i ! j = int k \<and>
      mc_opt d i j = mc_opt d i k + mc_opt d (k + 1) j + d ! (i - 1) * d ! k * d ! j"
    using exact_cells[OF assms, of i j] by simp
qed

lemma matrixChainOrder_exact:
  "exact_dims d M \<Longrightarrow>
   dp_exact d (mc_m (matrixChainOrder (dims d))) (mc_s (matrixChainOrder (dims d)))"
  using dp_computed_exact[OF _ matrixChainOrder_dp[of "dims d"]] .

section \<open>A chain of three dimensions whose product overflows\<close>

lemma overflow_tables:
  assumes prod: "js_mul (js_mul a b) c = Infinity"
  shows "lloop [a, b, c] 2 (zero_m 3, zero_s 3) = (set2 (zero_m 3) 1 2 Infinity, zero_s 3)"
proof -
  let ?p = "[a, b, c]"
  let ?m1 = "set2 (zero_m 3) 1 2 Infinity"
  have sqz: "sq 3 (zero_m 3)" by (simp add: sq_def zero_m_def)
  have cells: "?m1 ! 1 ! 1 = Num 0" "?m1 ! (1 + 1) ! 2 = Num 0" "?m1 ! 1 ! 2 = Infinity"
    using sqz by (simp_all add: nth_set2 nth_zero_m)
  have ps: "?p ! (1 - 1) = a" "?p ! 1 = b" "?p ! 2 = c" by simp_all
  have z: "js_add (Num 0) (Num 0) = Num 0" by (simp add: to_double_def)
  have c: "cost ?p ?m1 1 1 2 = Infinity"
    unfolding cost_def cells ps prod z by simp
  have k2: "kloop ?p 1 2 (1 + 1) (?m1, zero_s 3) = (?m1, zero_s 3)"
    by (subst kloop.simps) (simp add: numeral_2_eq_2 numeral_3_eq_3)
  have k1: "kloop ?p 1 2 1 (?m1, zero_s 3) = (?m1, zero_s 3)"
    using c cells(3) k2 by (subst kloop.simps) (simp add: Let_def numeral_2_eq_2 numeral_3_eq_3)
  have i2: "iloop ?p 2 (1 + 1) (?m1, zero_s 3) = (?m1, zero_s 3)"
    by (subst iloop.simps) (simp add: numeral_2_eq_2 numeral_3_eq_3)
  have i1: "iloop ?p 2 1 (zero_m 3, zero_s 3) = (?m1, zero_s 3)"
    using k1 i2 by (subst iloop.simps) (simp add: Let_def numeral_2_eq_2 numeral_3_eq_3)
  have l3: "lloop ?p (2 + 1) (?m1, zero_s 3) = (?m1, zero_s 3)"
    by (subst lloop.simps) (simp add: numeral_2_eq_2 numeral_3_eq_3)
  show ?thesis
    using i1 l3 by (subst lloop.simps) (simp add: numeral_2_eq_2 numeral_3_eq_3)
qed

lemma overflow_cell:
  assumes prod: "js_mul (js_mul a b) c = Infinity"
  shows "mc_m (matrixChainOrder [a, b, c]) ! 1 ! 2 = Infinity \<and>
         mc_s (matrixChainOrder [a, b, c]) ! 1 ! 2 = 0"
proof -
  have len: "length [a, b, c] = 3" by simp
  have t: "mc_m (matrixChainOrder [a, b, c]) = set2 (zero_m 3) 1 2 Infinity \<and>
      mc_s (matrixChainOrder [a, b, c]) = zero_s 3"
    unfolding matrixChainOrder_def Let_def len overflow_tables[OF assms] by simp
  have sqz: "sq 3 (zero_m 3)" by (simp add: sq_def zero_m_def)
  have "set2 (zero_m 3) 1 2 Infinity ! 1 ! 2 = Infinity" using sqz by (simp add: nth_set2)
  moreover have "zero_s 3 ! 1 ! 2 = 0" by (simp add: zero_s_def)
  ultimately show ?thesis using t by simp
qed

lemma huge_product:
  "js_mul (js_mul (Num (2 ^ 342)) (Num (2 ^ 342))) (Num (2 ^ 342)) = Infinity"
proof -
  have e: "(2 :: rat) ^ 342 = pow2 342" by (simp add: pow2_def)
  have "js_mul (Num (pow2 342)) (Num (pow2 342)) = Num (pow2 684)"
    using js_mul_pow2[of 342 342] by simp
  moreover have "js_mul (Num (pow2 684)) (Num (pow2 342)) = Infinity"
    using js_mul_pow2_overflow[of 684 342] by simp
  ultimately show ?thesis unfolding e by simp
qed

section \<open>The edges produced by the layout functions\<close>

lemma traverse_step:
  "traverse (RBNode i v c l r p) d lb rb pid isLeft ns =
     traverse r (d + 1) (splitX_of l r lb rb) rb (Some i) False
       (traverse l (d + 1) lb (splitX_of l r lb rb) (Some i) True
          (ns @ [real_node (RBNode i v c l r p) d lb rb]))"
  by (simp add: Let_def splitX_of_def real_node_def)

lemma traverse_append:
  "traverse t d lb rb pid isLeft nodes = nodes @ traverse t d lb rb pid isLeft []"
proof (induction t arbitrary: d lb rb pid isLeft nodes)
  case Null
  show ?case by (simp add: Let_def split: option.splits)
next
  case (RBNode i v c l r p)
  let ?sx = "splitX_of l r lb rb"
  let ?n = "real_node (RBNode i v c l r p) d lb rb"
  let ?L = "traverse l (d + 1) lb ?sx (Some i) True []"
  let ?R = "traverse r (d + 1) ?sx rb (Some i) False []"
  have g: "traverse (RBNode i v c l r p) d lb rb pid isLeft ns = (ns @ [?n]) @ ?L @ ?R" for ns
  proof -
    have "traverse (RBNode i v c l r p) d lb rb pid isLeft ns =
          traverse l (d + 1) lb ?sx (Some i) True (ns @ [?n]) @ ?R"
      unfolding traverse_step by (rule RBNode.IH(2))
    also have "traverse l (d + 1) lb ?sx (Some i) True (ns @ [?n]) = (ns @ [?n]) @ ?L"
      by (rule RBNode.IH(1))
    finally show ?thesis by simp
  qed
  show ?case unfolding g[of nodes] g[of "[]"] by simp
qed

lemma traverse_Node:
  "traverse (RBNode i v c l r p) d lb rb pid isLeft [] =
     real_node (RBNode i v c l r p) d lb rb
     # traverse l (d + 1) lb (splitX_of l r lb rb) (Some i) True []
     @ traverse r (d + 1) (splitX_of l r lb rb) rb (Some i) False []"
proof -
  have "traverse (RBNode i v c l r p) d lb rb pid isLeft [] =
        traverse l (d + 1) lb (splitX_of l r lb rb) (Some i) True
          [real_node (RBNode i v c l r p) d lb rb]
        @ traverse r (d + 1) (splitX_of l r lb rb) rb (Some i) False []"
    unfolding traverse_step by (subst traverse_append) simp
  then show ?thesis by (subst (asm) traverse_append) simp
qed

lemma layout_edges_slots:
  "ids_positive t \<Longrightarrow> set (map ln_id (traverse t d lb rb pid isLeft [])) \<subseteq> set ids \<Longrightarrow>
   (case pid of None \<Rightarrow> True | Some q \<Rightarrow> 0 < q) \<Longrightarrow>
   concat (map (node_edges ids) (traverse t d lb rb pid isLeft [])) = slot_pairs t"
proof (induction t arbitrary: d lb rb pid isLeft)
  case Null
  then show ?case by (auto simp: Let_def node_edges_def split: option.splits)
next
  case (RBNode i v c l r p)
  let ?sx = "splitX_of l r lb rb"
  let ?L = "traverse l (d + 1) lb ?sx (Some i) True []"
  let ?R = "traverse r (d + 1) ?sx rb (Some i) False []"
  have pos: "0 < i" "ids_positive l" "ids_positive r" using RBNode.prems(1) by auto
  have sub: "set (map ln_id ?L) \<subseteq> set ids" "set (map ln_id ?R) \<subseteq> set ids"
    using RBNode.prems(2) unfolding traverse_Node by auto
  have L: "concat (map (node_edges ids) ?L) = slot_pairs l"
    using RBNode.IH(1)[OF pos(2) sub(1)] pos(1) by simp
  have R: "concat (map (node_edges ids) ?R) = slot_pairs r"
    using RBNode.IH(2)[OF pos(3) sub(2)] pos(1) by simp
  have le: "child_edge ids i (id_or_null l) 1 = [(i, slot_target i 1 l)]"
  proof (cases l)
    case Null
    then have "- ((i * 10) + 1) \<in> set (map ln_id ?L)" by (simp add: Let_def)
    then have "- ((i * 10) + 1) \<in> set ids" using sub(1) by blast
    then show ?thesis using Null by (simp add: child_edge_def Let_def)
  next
    case (RBNode j v' c' l' r' p')
    then show ?thesis using pos(2) by (simp add: child_edge_def)
  qed
  have re: "child_edge ids i (id_or_null r) 2 = [(i, slot_target i 2 r)]"
  proof (cases r)
    case Null
    then have "- ((i * 10) + 2) \<in> set (map ln_id ?R)" by (simp add: Let_def)
    then have "- ((i * 10) + 2) \<in> set ids" using sub(2) by blast
    then show ?thesis using Null by (simp add: child_edge_def Let_def)
  next
    case (RBNode j v' c' l' r' p')
    then show ?thesis using pos(3) by (simp add: child_edge_def)
  qed
  have n: "node_edges ids (real_node (RBNode i v c l r p) d lb rb) =
           [(i, slot_target i 1 l), (i, slot_target i 2 r)]"
    using le re pos(1) by (simp add: node_edges_def real_node_def)
  show ?case
    unfolding traverse_Node using L R n by simp
qed

lemma computeTreeLayout_edges:
  "ids_positive t \<Longrightarrow> lay_edges (computeTreeLayout t w h) = slot_pairs t"
proof (cases t)
  case Null
  then show ?thesis by (simp add: computeTreeLayout_def)
next
  case (RBNode i v c l r p)
  assume "ids_positive t"
  then have "concat (map (node_edges (map ln_id (traverse t 0 40 (w - 40) None False [])))
                 (traverse t 0 40 (w - 40) None False [])) = slot_pairs t"
    by (intro layout_edges_slots) auto
  then show ?thesis using RBNode by (simp add: computeTreeLayout_def Let_def)
qed

lemma push_edge_real_link: "push_edge i t es = es @ real_link i t"
  by (cases t) auto

lemma traverse_t_edges:
  "snd (snd (traverse_t t lv hs vs (idx, ns, es))) = es @ inorder_pairs t"
proof (induction t arbitrary: lv idx ns es)
  case Null
  show ?case by simp
next
  case (RBNode i v c l r p)
  obtain idx1 ns1 es1 where l: "traverse_t l (lv + 1) hs vs (idx, ns, es) = (idx1, ns1, es1)"
    by (metis prod_cases3)
  have "es1 = es @ inorder_pairs l" using RBNode.IH(1)[of "lv + 1" idx ns es] l by simp
  then show ?case using l RBNode.IH(2) by (simp add: Let_def push_edge_real_link)
qed

lemma mset_inorder_pairs: "mset (inorder_pairs t) = mset (pc_pairs t)"
  by (induction t) auto

lemma computeTreeLayout_t_edges:
  "mset (tl_edges (computeTreeLayout_t t w h)) = mset (pc_pairs t)"
proof (cases t)
  case Null
  then show ?thesis by (simp add: computeTreeLayout_t_def)
next
  case (RBNode i v c l r p)
  obtain hs vs where
    "tl_edges (computeTreeLayout_t t w h) = snd (snd (traverse_t t 0 hs vs (0, [], [])))"
    using RBNode by (simp add: computeTreeLayout_t_def Let_def case_prod_beta del: traverse_t.simps)
  then have "tl_edges (computeTreeLayout_t t w h) = inorder_pairs t"
    by (simp add: traverse_t_edges del: traverse_t.simps)
  then show ?thesis by (simp add: mset_inorder_pairs)
qed

lemma filter_slot_pairs:
  "ids_positive t \<Longrightarrow> filter (\<lambda>e. 0 < snd e) (slot_pairs t) = pc_pairs t"
proof (induction t)
  case Null
  show ?case by simp
next
  case (RBNode i v c l r p)
  have a: "filter (\<lambda>e. 0 < snd e) [(i, slot_target i 1 l)] = real_link i l"
    using RBNode.prems by (cases l) auto
  have b: "filter (\<lambda>e. 0 < snd e) [(i, slot_target i 2 r)] = real_link i r"
    using RBNode.prems by (cases r) auto
  have "filter (\<lambda>e. 0 < snd e) (slot_pairs (RBNode i v c l r p)) =
        filter (\<lambda>e. 0 < snd e) [(i, slot_target i 1 l)] @
        filter (\<lambda>e. 0 < snd e) [(i, slot_target i 2 r)] @
        filter (\<lambda>e. 0 < snd e) (slot_pairs l) @ filter (\<lambda>e. 0 < snd e) (slot_pairs r)"
    by simp
  then show ?case unfolding a b using RBNode by simp
qed

section \<open>Shape and ids of the parenthesisation trees\<close>

declare show_nat.simps [simp del]

lemma erase_ids_node [simp]:
  "erase_ids (TreeNode n lab l r) = TreeNode () lab (map_option erase_ids l) (map_option erase_ids r)"
  by (simp add: erase_ids_def fun_eq_iff option.map_ident cong: option.map_cong)

lemma shape_u:
  "map_sum (\<lambda>e. e) erase_ids (fst (buildParenthesisTree_u f s i j c)) = shape ''-'' f s i j"
proof (induction f arbitrary: i j c)
  case 0
  show ?case by simp
next
  case (Suc f)
  show ?case
  proof (cases "i = j")
    case True
    then show ?thesis by (simp add: nextId_def)
  next
    case ne: False
    show ?thesis
    proof (cases "read2 s i j")
      case (Inl e)
      then show ?thesis using ne by simp
    next
      case (Inr ko)
      show ?thesis
      proof (cases ko)
        case None
        then show ?thesis using ne Inr by simp
      next
        case (Some k)
        obtain r1 c1 where a: "buildParenthesisTree_u f s i k c = (r1, c1)" by force
        obtain r2 c2 where b: "buildParenthesisTree_u f s (k + 1) j c1 = (r2, c2)" by force
        have A: "map_sum (\<lambda>e. e) erase_ids r1 = shape ''-'' f s i k" using Suc.IH[of i k c] a by simp
        have B: "map_sum (\<lambda>e. e) erase_ids r2 = shape ''-'' f s (k + 1) j"
          using Suc.IH[of "k + 1" j c1] b by simp
        show ?thesis
        proof (cases r1)
          case (Inl e)
          then have "shape ''-'' f s i k = Inl e" using A by simp
          then show ?thesis using ne Inr Some a Inl by simp
        next
          case l: (Inr l)
          show ?thesis
          proof (cases r2)
            case (Inl e)
            then have "shape ''-'' f s (k + 1) j = Inl e" using B by simp
            moreover have "shape ''-'' f s i k = Inr (erase_ids l)" using A l by simp
            ultimately show ?thesis using ne Inr Some a b l Inl by simp
          next
            case r: (Inr r)
            have A': "shape ''-'' f s i k = Inr (erase_ids l)" using A l by simp
            have B': "shape ''-'' f s (k + 1) j = Inr (erase_ids r)" using B r by simp
            show ?thesis using ne Inr Some a b l r A' B' by (simp add: nextId_def)
          qed
        qed
      qed
    qed
  qed
qed

lemma shape_ts:
  "map_sum (\<lambda>e. e) erase_ids (fst (buildParenthesisTree f s i j c)) = shape '','' f s i j"
proof (induction f arbitrary: i j c)
  case 0
  show ?case by simp
next
  case (Suc f)
  show ?case
  proof (cases "i = j")
    case True
    then show ?thesis by simp
  next
    case ne: False
    show ?thesis
    proof (cases "read2 s i j")
      case (Inl e)
      then show ?thesis using ne by simp
    next
      case (Inr ko)
      show ?thesis
      proof (cases ko)
        case None
        then show ?thesis using ne Inr by simp
      next
        case (Some k)
        obtain r1 c1 where a: "buildParenthesisTree f s i k (c + 1) = (r1, c1)" by force
        obtain r2 c2 where b: "buildParenthesisTree f s (k + 1) j c1 = (r2, c2)" by force
        have A: "map_sum (\<lambda>e. e) erase_ids r1 = shape '','' f s i k"
          using Suc.IH[of i k "c + 1"] a by simp
        have B: "map_sum (\<lambda>e. e) erase_ids r2 = shape '','' f s (k + 1) j"
          using Suc.IH[of "k + 1" j c1] b by simp
        show ?thesis
        proof (cases r1)
          case (Inl e)
          then have "shape '','' f s i k = Inl e" using A by simp
          then show ?thesis using ne Inr Some a Inl by simp
        next
          case l: (Inr l)
          show ?thesis
          proof (cases r2)
            case (Inl e)
            then have "shape '','' f s (k + 1) j = Inl e" using B by simp
            moreover have "shape '','' f s i k = Inr (erase_ids l)" using A l by simp
            ultimately show ?thesis using ne Inr Some a b l Inl by simp
          next
            case r: (Inr r)
            have A': "shape '','' f s i k = Inr (erase_ids l)" using A l by simp
            have B': "shape '','' f s (k + 1) j = Inr (erase_ids r)" using B r by simp
            show ?thesis using ne Inr Some a b l r A' B' by simp
          qed
        qed
      qed
    qed
  qed
qed

lemma upt_three:
  "[a + 1 ..< a + 1 + (x + y + 1)] = [a + 1 ..< a + 1 + x] @ [a + x + 1 ..< a + x + 1 + y] @ [a + x + y + 1]"
proof -
  have "[a + 1 ..< a + 1 + (x + y + 1)] = [a + 1 ..< a + 1 + (x + y)] @ [a + x + y + 1]"
    by simp
  moreover have "[a + 1 ..< a + 1 + (x + y)] = [a + 1 ..< a + 1 + x] @ [a + 1 + x ..< a + 1 + x + y]"
    using upt_add_eq_append[of "a + 1" "a + 1 + x" y] by (simp add: add.assoc)
  ultimately show ?thesis by (simp add: add.commute add.left_commute)
qed

lemma ids_u:
  "buildParenthesisTree_u f s i j c = (Inr t, c') \<Longrightarrow>
   post_ids t = map (\<lambda>k. ''n'' @ show_nat k) [c + 1 ..< c + 1 + node_count t] \<and>
   c' = c + node_count t"
proof (induction f arbitrary: i j c c' t)
  case 0
  then show ?case by simp
next
  case (Suc f)
  show ?case
  proof (cases "i = j")
    case True
    then show ?thesis using Suc.prems by (auto simp: nextId_def node_count_def)
  next
    case ne: False
    then obtain k where k: "read2 s i j = Inr (Some k)"
      using Suc.prems by (auto split: sum.splits option.splits)
    obtain r1 c1 where a: "buildParenthesisTree_u f s i k c = (r1, c1)" by force
    then obtain l where l: "r1 = Inr l"
      using Suc.prems ne k by (cases r1) auto
    obtain r2 c2 where b: "buildParenthesisTree_u f s (k + 1) j c1 = (r2, c2)" by force
    then obtain r where r: "r2 = Inr r"
      using Suc.prems ne k a l by (cases r2) auto
    have t: "t = TreeNode (''n'' @ show_nat (c2 + 1)) (''('' @ show_int i @ ''-'' @ show_int j @ '')'')
                 (Some l) (Some r)" and c': "c' = c2 + 1"
      using Suc.prems ne k a l b r by (auto simp: nextId_def)
    have A: "post_ids l = map (\<lambda>k. ''n'' @ show_nat k) [c + 1 ..< c + 1 + node_count l]"
      "c1 = c + node_count l"
      using Suc.IH[of i k c l c1] a l by auto
    have B: "post_ids r = map (\<lambda>k. ''n'' @ show_nat k) [c1 + 1 ..< c1 + 1 + node_count r]"
      "c2 = c1 + node_count r"
      using Suc.IH[of "k + 1" j c1 r c2] b r by auto
    have n: "node_count t = node_count l + node_count r + 1"
      using t by (simp add: node_count_def)
    have up: "[c + 1 ..< c + 1 + node_count t] =
          [c + 1 ..< c + 1 + node_count l] @ [c1 + 1 ..< c1 + 1 + node_count r] @ [c2 + 1]"
      unfolding n A(2) B(2) by (rule upt_three)
    have "post_ids t = post_ids l @ post_ids r @ [''n'' @ show_nat (c2 + 1)]"
      using t by simp
    then have "post_ids t = map (\<lambda>k. ''n'' @ show_nat k) [c + 1 ..< c + 1 + node_count t]"
      unfolding up A(1) B(1) by simp
    moreover have "c' = c + node_count t" using c' A(2) B(2) n by simp
    ultimately show ?thesis by simp
  qed
qed


lemma upt_pre:
  "[a ..< a + (x + y + 1)] = a # [a + 1 ..< a + 1 + x] @ [a + 1 + x ..< a + 1 + x + y]"
proof -
  have "[a ..< a + (x + y + 1)] = a # [a + 1 ..< a + 1 + (x + y)]"
    by (simp add: upt_rec[of a])
  moreover have "[a + 1 ..< a + 1 + (x + y)] = [a + 1 ..< a + 1 + x] @ [a + 1 + x ..< a + 1 + x + y]"
    using upt_add_eq_append[of "a + 1" "a + 1 + x" y] by (simp add: add.assoc)
  ultimately show ?thesis by simp
qed

lemma ids_ts:
  "buildParenthesisTree f s i j c = (Inr t, c') \<Longrightarrow>
   pre_ids t = [c ..< c + node_count t] \<and> c' = c + node_count t"
proof (induction f arbitrary: i j c c' t)
  case 0
  then show ?case by simp
next
  case (Suc f)
  show ?case
  proof (cases "i = j")
    case True
    then show ?thesis using Suc.prems by (auto simp: node_count_def)
  next
    case ne: False
    then obtain k where k: "read2 s i j = Inr (Some k)"
      using Suc.prems by (auto split: sum.splits option.splits)
    obtain r1 c1 where a: "buildParenthesisTree f s i k (c + 1) = (r1, c1)" by force
    then obtain l where l: "r1 = Inr l"
      using Suc.prems ne k by (cases r1) auto
    obtain r2 c2 where b: "buildParenthesisTree f s (k + 1) j c1 = (r2, c2)" by force
    then obtain r where r: "r2 = Inr r"
      using Suc.prems ne k a l by (cases r2) auto
    have t: "t = TreeNode c (''('' @ show_int i @ '','' @ show_int j @ '')'') (Some l) (Some r)"
      and c': "c' = c2"
      using Suc.prems ne k a l b r by auto
    have A: "pre_ids l = [c + 1 ..< c + 1 + node_count l]" "c1 = c + 1 + node_count l"
      using Suc.IH[of i k "c + 1" l c1] a l by auto
    have B: "pre_ids r = [c1 ..< c1 + node_count r]" "c2 = c1 + node_count r"
      using Suc.IH[of "k + 1" j c1 r c2] b r by auto
    have n: "node_count t = node_count l + node_count r + 1"
      using t by (simp add: node_count_def)
    have "pre_ids t = c # pre_ids l @ pre_ids r" using t by simp
    then have "pre_ids t = [c ..< c + node_count t]"
      unfolding n upt_pre A(1) B(1) A(2) by simp
    moreover have "c' = c + node_count t" using c' A(2) B(2) n by simp
    ultimately show ?thesis by simp
  qed
qed

section \<open>Insert preserves the Red-Black invariants\<close>

lemma black_counts_bal: "bal t \<Longrightarrow> set (black_counts t) = {bh t}"
  by (induction t) (auto simp: image_Un)

lemma bal_equal_black_paths: "bal t \<Longrightarrow> equal_black_paths t"
proof (induction t)
  case NIL
  show ?case by simp
next
  case (Node i k c l r)
  have "set (black_counts (Node i k c l r)) = {bh (Node i k c l r)}"
    using Node.prems by (rule black_counts_bal)
  then show ?case using Node by simp
qed

lemma rb_ok_invariants: "rb_ok t \<Longrightarrow> rb_invariants t"
  by (simp add: rb_ok_def rb_invariants_def bal_equal_black_paths)

lemma paint_black_id: "color_of t = BLACK \<Longrightarrow> paint BLACK t = t"
  by (cases t) auto

lemma inorder_paint [simp]: "inorder_keys (paint c t) = inorder_keys t"
  by (cases t) auto

lemma bal_paint [simp]: "bal (paint c t) = bal t"
  by (cases t) auto

lemma inorder_attach_cong:
  "inorder_keys t' = inorder_keys t \<Longrightarrow> inorder_keys (attach f t') = inorder_keys (attach f t)"
  by (cases f; cases "f_side f") auto

lemma inorder_rebuild_cong:
  "inorder_keys t' = inorder_keys t \<Longrightarrow> inorder_keys (rebuild p t') = inorder_keys (rebuild p t)"
proof (induction p arbitrary: t t')
  case Nil
  then show ?case by simp
next
  case (Cons f p)
  have "inorder_keys (attach f t') = inorder_keys (attach f t)"
    using Cons.prems by (rule inorder_attach_cong)
  then show ?case using Cons.IH[of "attach f t'" "attach f t"] by simp
qed

lemma bal_attach_sub: "bal (attach f t) \<Longrightarrow> bal t"
  by (cases f; cases "f_side f") auto

lemma bal_rebuild_sub: "bal (rebuild p t) \<Longrightarrow> bal t"
  by (induction p arbitrary: t) (auto dest: bal_attach_sub)

lemma bal_attach_cong:
  "bal (attach f t) \<Longrightarrow> bal t' \<Longrightarrow> bh t' = bh t \<Longrightarrow>
   bal (attach f t') \<and> bh (attach f t') = bh (attach f t)"
  by (cases f; cases "f_side f") auto

lemma bal_rebuild_cong:
  "bal (rebuild p t) \<Longrightarrow> bal t' \<Longrightarrow> bh t' = bh t \<Longrightarrow> bal (rebuild p t')"
proof (induction p arbitrary: t t')
  case Nil
  then show ?case by simp
next
  case (Cons f p)
  have "bal (attach f t)" using Cons.prems(1) by (auto dest: bal_rebuild_sub)
  then have "bal (attach f t') \<and> bh (attach f t') = bh (attach f t)"
    using Cons.prems(2,3) by (rule bal_attach_cong)
  then show ?case using Cons.IH[of "attach f t" "attach f t'"] Cons.prems(1) by simp
qed

lemma nrr_attach_sub: "no_red_red (attach f t) \<Longrightarrow> no_red_red t"
  by (cases f; cases "f_side f") auto

lemma nrr_rebuild_sub: "no_red_red (rebuild p t) \<Longrightarrow> no_red_red t"
  by (induction p arbitrary: t) (auto dest: nrr_attach_sub)

lemma color_attach [simp]: "color_of (attach f t) = f_color f"
  by (cases f; cases "f_side f") auto

lemma nrr_attach_cong:
  "no_red_red (attach f t) \<Longrightarrow> no_red_red t' \<Longrightarrow>
   color_of t' = color_of t \<or> color_of t' = BLACK \<Longrightarrow> no_red_red (attach f t')"
  by (cases f; cases "f_side f") auto

lemma nrr_rebuild_cong:
  "no_red_red (rebuild p t) \<Longrightarrow> no_red_red t' \<Longrightarrow>
   color_of t' = color_of t \<or> color_of t' = BLACK \<Longrightarrow> no_red_red (rebuild p t')"
proof (induction p arbitrary: t t')
  case Nil
  then show ?case by simp
next
  case (Cons f p)
  have "no_red_red (attach f t)" using Cons.prems(1) by (auto dest: nrr_rebuild_sub)
  then have "no_red_red (attach f t')" using Cons.prems(2,3) by (rule nrr_attach_cong)
  then show ?case using Cons.IH[of "attach f t" "attach f t'"] Cons.prems(1) by simp
qed

lemma color_rebuild_cong:
  "p \<noteq> [] \<Longrightarrow> color_of (rebuild p t') = color_of (rebuild p t)"
proof (induction p arbitrary: t t')
  case Nil
  then show ?case by simp
next
  case (Cons f p)
  show ?case
  proof (cases "p = []")
    case True
    then show ?thesis by simp
  next
    case False
    then show ?thesis using Cons.IH[of "attach f t'" "attach f t"] by simp
  qed
qed

lemma color_rebuild_same:
  "color_of t' = color_of t \<Longrightarrow> color_of (rebuild p t') = color_of (rebuild p t)"
  by (cases "p = []") (auto intro: color_rebuild_cong)

lemma not_red [simp]: "(c \<noteq> RED) = (c = BLACK)"
  by (cases c) auto

lemma red_node: "color_of z = RED \<Longrightarrow> \<exists>zi zk zl zr. z = Node zi zk RED zl zr"
  by (cases z) auto

text \<open>Case A, on the grandparent subtree.\<close>

lemma case_a_local:
  assumes "color_of z = RED" "no_red_red z"
    and "no_red_red (attach g (attach p (paint BLACK z)))"
    and "bal (attach g (attach p z))"
    and "f_color p = RED" "color_of (f_sibling g) = RED"
  shows "color_of (recolor_uncle_red (attach g (attach p z))) = RED \<and>
     no_red_red (recolor_uncle_red (attach g (attach p z))) \<and>
     no_red_red (paint BLACK (recolor_uncle_red (attach g (attach p z)))) \<and>
     bal (recolor_uncle_red (attach g (attach p z))) \<and>
     bh (recolor_uncle_red (attach g (attach p z))) = bh (attach g (attach p z)) \<and>
     inorder_keys (recolor_uncle_red (attach g (attach p z))) = inorder_keys (attach g (attach p z)) \<and>
     f_color g = BLACK"
proof -
  obtain gd gi gk gc u where g: "g = Frame gd gi gk gc u" by (cases g)
  obtain d pi pk pc sib where p: "p = Frame d pi pk pc sib" by (cases p)
  obtain zi zk zl zr where z: "z = Node zi zk RED zl zr" using assms(1) red_node by blast
  obtain ui uk ul ur where u: "u = Node ui uk RED ul ur"
    using assms(6) red_node unfolding g by fastforce
  have pc: "pc = RED" using assms(5) p by simp
  show ?thesis
  proof (cases gd)
    case LeftSide
    show ?thesis
    proof (cases d)
      case d: LeftSide
      show ?thesis using assms(2,3,4) unfolding g p z u pc LeftSide d by simp
    next
      case d: RightSide
      show ?thesis using assms(2,3,4) unfolding g p z u pc LeftSide d by simp
    qed
  next
    case RightSide
    show ?thesis
    proof (cases d)
      case d: LeftSide
      show ?thesis using assms(2,3,4) unfolding g p z u pc RightSide d by simp
    next
      case d: RightSide
      show ?thesis using assms(2,3,4) unfolding g p z u pc RightSide d by simp
    qed
  qed
qed

lemma case_c_local:
  assumes "color_of z = RED" "no_red_red z"
    and "no_red_red (attach g (attach p (paint BLACK z)))"
    and "bal (attach g (attach p z))"
    and "f_color p = RED" "color_of (f_sibling g) \<noteq> RED"
  shows "color_of (outer_result p g z) = BLACK \<and>
     no_red_red (outer_result p g z) \<and>
     bal (outer_result p g z) \<and>
     bh (outer_result p g z) = bh (attach g (attach p z)) \<and>
     inorder_keys (outer_result p g z) = inorder_keys (attach g (attach p z))"
proof -
  obtain gd gi gk gc u where g: "g = Frame gd gi gk gc u" by (cases g)
  obtain d pi pk pc sib where p: "p = Frame d pi pk pc sib" by (cases p)
  obtain zi zk zl zr where z: "z = Node zi zk RED zl zr" using assms(1) red_node by blast
  have pc: "pc = RED" using assms(5) p by simp
  have u: "color_of u = BLACK" using assms(6) g by simp
  show ?thesis
  proof (cases gd)
    case LeftSide
    show ?thesis
    proof (cases d)
      case d: LeftSide
      show ?thesis using assms(2,3,4) u unfolding outer_result_def g p z pc LeftSide d by simp
    next
      case d: RightSide
      show ?thesis using assms(2,3,4) u unfolding outer_result_def g p z pc LeftSide d by simp
    qed
  next
    case RightSide
    show ?thesis
    proof (cases d)
      case d: LeftSide
      show ?thesis using assms(2,3,4) u unfolding outer_result_def g p z pc RightSide d by simp
    next
      case d: RightSide
      show ?thesis using assms(2,3,4) u unfolding outer_result_def g p z pc RightSide d by simp
    qed
  qed
qed

lemma nrr_black_parent:
  "f_color p = BLACK \<Longrightarrow> no_red_red (attach p (paint BLACK z)) \<Longrightarrow> no_red_red z \<Longrightarrow>
   no_red_red (attach p z)"
  by (cases p; cases "f_side p"; cases z) auto

lemma fixup_a:
  "f_color p = RED \<Longrightarrow> color_of (f_sibling g) = RED \<Longrightarrow>
   insert_fixup (p # g # rest) z st =
     insert_fixup rest (recolor_uncle_red (attach g (attach p z)))
       (record_step (rebuild rest (recolor_uncle_red (attach g (attach p z)))) RECOLOR
          ''uncle RED: parent and uncle BLACK, grandparent RED'' [f_id p, f_id g] None st)"
  by (simp add: Let_def)

lemma fixup_bc:
  "f_color p = RED \<Longrightarrow> color_of (f_sibling g) \<noteq> RED \<Longrightarrow>
   \<exists>st'. insert_fixup (p # g # rest) z st = Inr (rebuild rest (outer_result p g z), st')"
  by (simp add: Let_def outer_result_def)

lemma fixup_ok: "fix_inv p z \<Longrightarrow> fix_post p z (insert_fixup p z st)"
proof (induction p arbitrary: z st rule: length_induct)
  case (1 path)
  note inv = "1.prems"
  have zc: "color_of z = RED" and zn: "no_red_red z"
    and nb: "no_red_red (rebuild path (paint BLACK z))"
    and bl: "bal (rebuild path z)"
    and rc: "path \<noteq> [] \<longrightarrow> color_of (rebuild path z) = BLACK"
    using inv by (auto simp: fix_inv_def)
  show ?case
  proof (cases path)
    case Nil
    then show ?thesis using nb bl by (simp add: fix_post_def)
  next
    case (Cons p rest0)
    have nbp: "no_red_red (attach p (paint BLACK z))"
      using nb Cons by (auto dest: nrr_rebuild_sub)
    show ?thesis
    proof (cases "f_color p = RED")
      case False
      then have pb: "f_color p = BLACK" by simp
      have a: "no_red_red (attach p z)" using nrr_black_parent[OF pb nbp zn] .
      have "no_red_red (rebuild rest0 (attach p z))"
        using nrr_rebuild_cong[of rest0 "attach p (paint BLACK z)" "attach p z"] nb Cons a by simp
      then have n: "no_red_red (paint BLACK (rebuild path z))"
        using rc Cons by (simp add: paint_black_id)
      have "insert_fixup path z st = Inr (rebuild path z, st)"
        using Cons pb by (cases rest0) auto
      then show ?thesis using n bl by (simp add: fix_post_def)
    next
      case pr: True
      show ?thesis
      proof (cases rest0)
        case Nil
        then have "color_of (rebuild path z) = RED" using Cons pr by simp
        then show ?thesis using rc Cons by simp
      next
        case c2: (Cons g rest)
        let ?G = "attach g (attach p z)"
        have path: "path = p # g # rest" using Cons c2 by simp
        have nG: "no_red_red (attach g (attach p (paint BLACK z)))"
          using nb path by (auto dest: nrr_rebuild_sub)
        have bG: "bal ?G" using bl path by (auto dest: bal_rebuild_sub)
        have rb: "rebuild path z = rebuild rest ?G" using path by simp
        show ?thesis
        proof (cases "color_of (f_sibling g) = RED")
          case True
          let ?G' = "recolor_uncle_red ?G"
          note L = case_a_local[OF zc zn nG bG pr True]
          have i1: "no_red_red (rebuild rest (paint BLACK ?G'))"
            using nrr_rebuild_cong[of rest "attach g (attach p (paint BLACK z))" "paint BLACK ?G'"]
              nb path L by (cases ?G') auto
          have i2: "bal (rebuild rest ?G')"
            using bal_rebuild_cong[of rest ?G ?G'] bl rb L by simp
          have i3: "rest \<noteq> [] \<longrightarrow> color_of (rebuild rest ?G') = BLACK"
            using color_rebuild_cong[of rest ?G' ?G] rc rb path by auto
          have "fix_inv rest ?G'" unfolding fix_inv_def using L i1 i2 i3 by simp
          moreover have "length rest < length path" using path by simp
          ultimately have "fix_post rest ?G' (insert_fixup rest ?G'
             (record_step (rebuild rest ?G') RECOLOR
                ''uncle RED: parent and uncle BLACK, grandparent RED'' [f_id p, f_id g] None st))"
            using "1.IH" by blast
          moreover have "inorder_keys (rebuild rest ?G') = inorder_keys (rebuild path z)"
            unfolding rb using L by (intro inorder_rebuild_cong) simp
          ultimately show ?thesis
            unfolding path fixup_a[OF pr True] fix_post_def using path by auto
        next
          case False
          let ?R = "outer_result p g z"
          note L = case_c_local[OF zc zn nG bG pr False]
          obtain st' where res: "insert_fixup path z st = Inr (rebuild rest ?R, st')"
            using fixup_bc[OF pr False, of rest z st] path by auto
          have gb: "color_of (attach g (attach p (paint BLACK z))) = color_of ?R \<or> color_of ?R = BLACK"
            using L by simp
          have n1: "no_red_red (rebuild rest ?R)"
            using nrr_rebuild_cong[of rest "attach g (attach p (paint BLACK z))" ?R] nb path L
            by simp
          have cR: "color_of (rebuild rest ?R) = BLACK"
          proof (cases "rest = []")
            case True
            then show ?thesis using L by simp
          next
            case False
            then show ?thesis using color_rebuild_cong[of rest ?R ?G] rc rb path by auto
          qed
          have n: "no_red_red (paint BLACK (rebuild rest ?R))"
            using n1 cR by (simp add: paint_black_id)
          have b: "bal (rebuild rest ?R)"
            using bal_rebuild_cong[of rest ?G ?R] bl rb L by simp
          have io: "inorder_keys (rebuild rest ?R) = inorder_keys (rebuild path z)"
            unfolding rb using L by (intro inorder_rebuild_cong) simp
          show ?thesis unfolding fix_post_def using res n b io by simp
        qed
      qed
    qed
  qed
qed

lemma inorder_rebuild:
  "inorder_keys (rebuild fs t) = before fs @ inorder_keys t @ after fs"
proof (induction fs arbitrary: t)
  case Nil
  show ?case by simp
next
  case (Cons f fs)
  show ?case
  proof (cases f)
    case (Frame sd i k c sib)
    then show ?thesis using Cons.IH by (cases sd) auto
  qed
qed

lemma tree_root_record_step [simp]:
  "tree_root (record_step t kind d hl tr st) = tree_root st"
  by (simp add: record_step_def startOperation_def Let_def split: option.splits)

lemma nextNodeId_record_step [simp]:
  "nextNodeId (record_step t kind d hl tr st) = nextNodeId st"
  by (simp add: record_step_def startOperation_def Let_def split: option.splits)

lemma tree_root_begin_call [simp]: "tree_root (begin_call ty k st) = tree_root st"
  by (simp add: begin_call_def startOperation_def split: option.splits)

lemma nextNodeId_begin_call [simp]: "nextNodeId (begin_call ty k st) = nextNodeId st"
  by (simp add: begin_call_def startOperation_def split: option.splits)

lemma tree_root_end_call [simp]: "tree_root (fst (end_call st0 st)) = tree_root st"
  by (simp add: end_call_def endOperation_def Let_def split: option.splits)

lemma nextNodeId_end_call [simp]: "nextNodeId (fst (end_call st0 st)) = nextNodeId st"
  by (simp add: end_call_def endOperation_def Let_def split: option.splits)

lemma descend_state:
  "descend key whole t path st = (d, st') \<Longrightarrow>
   tree_root st' = tree_root st \<and> nextNodeId st' = nextNodeId st"
proof (induction t arbitrary: path st)
  case NIL
  then show ?case by simp
next
  case (Node i k c l r)
  show ?case
  proof (cases "key = k")
    case True
    then show ?thesis using Node.prems by simp
  next
    case ne: False
    show ?thesis
    proof (cases "key < k")
      case True
      then show ?thesis using Node.IH(1) Node.prems ne by fastforce
    next
      case False
      then show ?thesis using Node.IH(2) Node.prems ne by fastforce
    qed
  qed
qed

lemma descend_ended:
  "descend key whole t path st = (Ended path', st') \<Longrightarrow>
   sorted_wrt (<) (inorder_keys (rebuild path t)) \<Longrightarrow>
   (\<forall>x \<in> set (before path). x < key) \<Longrightarrow> (\<forall>x \<in> set (after path). key < x) \<Longrightarrow>
   rebuild path' NIL = rebuild path t \<and>
   (\<forall>x \<in> set (before path'). x < key) \<and> (\<forall>x \<in> set (after path'). key < x)"
proof (induction t arbitrary: path st)
  case NIL
  then show ?case by simp
next
  case (Node i k c l r)
  have srt: "sorted_wrt (<) (before path @ (inorder_keys l @ [k] @ inorder_keys r) @ after path)"
    using Node.prems(2) by (simp add: inorder_rebuild)
  have ne: "key \<noteq> k" using Node.prems(1) by (auto split: if_splits)
  show ?case
  proof (cases "key < k")
    case True
    let ?p = "Frame LeftSide i k c r # path"
    have d: "descend key whole l ?p
               (record_step whole TRAVERSE ''compare: go left'' [i] (Some i) st) = (Ended path', st')"
      using Node.prems(1) ne True by simp
    have "\<forall>x \<in> set (inorder_keys r). k < x" using srt by (auto simp: sorted_wrt_append)
    then have a: "\<forall>x \<in> set (after ?p). key < x" using True Node.prems(4) by auto
    have b: "\<forall>x \<in> set (before ?p). x < key" using Node.prems(3) by simp
    have s: "sorted_wrt (<) (inorder_keys (rebuild ?p l))" using Node.prems(2) by simp
    show ?thesis using Node.IH(1)[OF d s b a] by simp
  next
    case False
    then have gt: "k < key" using ne by simp
    let ?p = "Frame RightSide i k c l # path"
    have d: "descend key whole r ?p
               (record_step whole TRAVERSE ''compare: go right'' [i] (Some i) st) = (Ended path', st')"
      using Node.prems(1) ne False by simp
    have "\<forall>x \<in> set (inorder_keys l). x < k" using srt by (auto simp: sorted_wrt_append)
    then have b: "\<forall>x \<in> set (before ?p). x < key" using gt Node.prems(3) by auto
    have a: "\<forall>x \<in> set (after ?p). key < x" using Node.prems(4) by simp
    have s: "sorted_wrt (<) (inorder_keys (rebuild ?p r))" using Node.prems(2) by simp
    show ?thesis using Node.IH(2)[OF d s b a] by simp
  qed
qed

lemma descend_reached:
  "descend key whole t path st = (Reached path' n, st') \<Longrightarrow>
   rebuild path' n = rebuild path t \<and> n \<noteq> NIL \<and> n_key n = key"
proof (induction t arbitrary: path st)
  case NIL
  then show ?case by simp
next
  case (Node i k c l r)
  show ?case
  proof (cases "key = k")
    case True
    then show ?thesis using Node.prems by auto
  next
    case ne: False
    show ?thesis
    proof (cases "key < k")
      case True
      then show ?thesis using Node.IH(1)[of "Frame LeftSide i k c r # path"] Node.prems ne by simp
    next
      case False
      then show ?thesis using Node.IH(2)[of "Frame RightSide i k c l # path"] Node.prems ne by simp
    qed
  qed
qed

lemma new_leaf_inv:
  assumes ok: "rb_ok (rebuild path NIL)"
  shows "fix_inv path (Node i key RED NIL NIL)"
proof -
  let ?z = "Node i key RED NIL NIL"
  have n: "no_red_red (rebuild path (paint BLACK ?z))"
    using nrr_rebuild_cong[of path NIL "paint BLACK ?z"] ok by (simp add: rb_ok_def)
  have b: "bal (rebuild path ?z)"
    using bal_rebuild_cong[of path NIL ?z] ok by (simp add: rb_ok_def)
  have c: "path \<noteq> [] \<longrightarrow> color_of (rebuild path ?z) = BLACK"
    using color_rebuild_cong[of path ?z NIL] ok by (auto simp: rb_ok_def)
  show ?thesis unfolding fix_inv_def using n b c by simp
qed

lemma insert_ok:
  assumes ok: "rb_ok (tree_root st0)"
  shows "\<exists>st' new. insert_rb key st0 = Inr (st', new) \<and> rb_ok (tree_root st')"
proof -
  let ?st = "begin_call ''INSERT'' key st0"
  let ?T = "tree_root st0"
  obtain d st1 where d: "descend key ?T ?T [] ?st = (d, st1)" by force
  show ?thesis
  proof (cases d)
    case (Reached path n)
    let ?r = "end_call st0 (record_step ?T FOUND ''already present'' [n_id n] None st1)"
    have "insert_rb key st0 = Inr ?r" using d Reached by (simp add: insert_rb_def Let_def)
    moreover have "tree_root (fst ?r) = ?T" using descend_state[OF d] by simp
    ultimately show ?thesis using ok by (cases ?r) auto
  next
    case (Ended path)
    have e: "rebuild path NIL = ?T \<and>
       (\<forall>x \<in> set (before path). x < key) \<and> (\<forall>x \<in> set (after path). key < x)"
      using descend_ended[of key ?T ?T "[]" ?st path st1] d Ended ok by (simp add: rb_ok_def)
    let ?z = "Node (nextNodeId st1) key RED NIL NIL"
    let ?st3 = "record_step (rebuild path ?z) CREATE
                       (if path = [] then ''inserted as ROOT (temporary RED)'' else ''inserted RED leaf'')
                       [n_id ?z] None (st1 \<lparr> nextNodeId := nextNodeId st1 + 1 \<rparr>)"
    have fi: "fix_inv path ?z" using new_leaf_inv[of path] e ok by simp
    obtain t st4 where f: "insert_fixup path ?z ?st3 = Inr (t, st4)"
      and io: "inorder_keys t = inorder_keys (rebuild path ?z)" and bt: "bal t"
      and nt: "no_red_red (paint BLACK t)"
      using fixup_ok[OF fi, of ?st3] unfolding fix_post_def by blast
    have "sorted_wrt (<) (before path @ after path)"
      using ok e inorder_rebuild[of path NIL] by (simp add: rb_ok_def)
    then have srt: "sorted_wrt (<) (inorder_keys t)"
      unfolding io inorder_rebuild using e by (auto simp: sorted_wrt_append)
    obtain t' st5 where b: "blacken_root t st4 = (t', st5)" by force
    have t': "t' = paint BLACK t"
      using b by (auto simp: blacken_root_def paint_black_id split: if_splits)
    have okt: "rb_ok t'"
      unfolding rb_ok_def t' using nt bt srt by (cases t) auto
    let ?r = "end_call st0 (st5 \<lparr> tree_root := t' \<rparr>)"
    have "insert_rb key st0 = Inr ?r"
      using d Ended f b by (simp add: insert_rb_def Let_def)
    moreover have "tree_root (fst ?r) = t'" by simp
    ultimately show ?thesis using okt by (cases ?r) auto
  qed
qed

lemma insert_all_ok:
  "rb_ok (tree_root st) \<Longrightarrow> \<exists>st'. insert_all ks st = Inr st' \<and> rb_ok (tree_root st')"
proof (induction ks arbitrary: st)
  case Nil
  then show ?case by simp
next
  case (Cons k ks)
  obtain st1 new where i: "insert_rb k st = Inr (st1, new)" and ok1: "rb_ok (tree_root st1)"
    using insert_ok[OF Cons.prems, of k] by blast
  show ?case using Cons.IH[OF ok1] i by simp
qed

lemma rb_ok_init: "rb_ok (tree_root init_state)"
  by (simp add: init_state_def rb_ok_def)

section \<open>Terminal steps of an insert that finds its key\<close>

lemma log_refl [simp]: "log_extends st st"
  by (simp add: log_extends_def)

lemma log_trans: "log_extends a b \<Longrightarrow> log_extends b c \<Longrightarrow> log_extends a c"
  by (auto simp: log_extends_def)

lemma steps_startOperation [simp]: "steps (startOperation ty ks st) = steps st"
  by (simp add: startOperation_def)

lemma steps_begin_call [simp]: "steps (begin_call ty k st) = steps st"
  by (simp add: begin_call_def split: option.splits)

lemma steps_end_call [simp]: "steps (fst (end_call st0 st)) = steps st"
  by (simp add: end_call_def endOperation_def Let_def split: option.splits)

lemma steps_record_step:
  "\<exists>s. steps (record_step t kind d hl tr st) = steps st @ [s] \<and> st_type s = kind \<and>
       st_description s = d \<and> st_treeSnapshot s = snapshot t"
  by (simp add: record_step_def Let_def split: option.splits)

lemma log_record_step [simp]: "log_extends st (record_step t kind d hl tr st)"
  using steps_record_step[of t kind d hl tr st] by (auto simp: log_extends_def)

lemma log_begin_call [simp]: "log_extends (begin_call ty k st) b = log_extends st b"
  by (simp add: log_extends_def)

lemma descend_log: "descend key whole t path st = (d, st') \<Longrightarrow> log_extends st st'"
proof (induction t arbitrary: path st)
  case NIL
  then show ?case by simp
next
  case (Node i k c l r)
  show ?case
  proof (cases "key = k")
    case True
    then show ?thesis using Node.prems by simp
  next
    case ne: False
    show ?thesis
    proof (cases "key < k")
      case True
      then have "log_extends (record_step whole TRAVERSE ''compare: go left'' [i] (Some i) st) st'"
        using Node.IH(1) Node.prems ne by simp
      then show ?thesis using log_trans log_record_step by blast
    next
      case False
      then have "log_extends (record_step whole TRAVERSE ''compare: go right'' [i] (Some i) st) st'"
        using Node.IH(2) Node.prems ne by simp
      then show ?thesis using log_trans log_record_step by blast
    qed
  qed
qed

lemma descend_finds:
  "sorted_wrt (<) (inorder_keys t) \<Longrightarrow> key \<in> set (inorder_keys t) \<Longrightarrow>
   \<exists>path' n st'. descend key whole t path st = (Reached path' n, st')"
proof (induction t arbitrary: path st)
  case NIL
  then show ?case by simp
next
  case (Node i k c l r)
  have sl: "sorted_wrt (<) (inorder_keys l)" and sr: "sorted_wrt (<) (inorder_keys r)"
    and lk: "\<forall>x \<in> set (inorder_keys l). x < k" and kr: "\<forall>x \<in> set (inorder_keys r). k < x"
    using Node.prems(1) by (auto simp: sorted_wrt_append)
  show ?case
  proof (cases "key = k")
    case True
    then show ?thesis by simp
  next
    case ne: False
    show ?thesis
    proof (cases "key < k")
      case True
      then have "key \<in> set (inorder_keys l)" using Node.prems(2) ne kr by auto
      then show ?thesis using Node.IH(1)[OF sl] ne True by simp
    next
      case False
      then have "key \<in> set (inorder_keys r)" using Node.prems(2) ne lk by auto
      then show ?thesis using Node.IH(2)[OF sr] ne False by simp
    qed
  qed
qed

lemma new_steps_last:
  assumes "log_extends st0 st1" "steps S = steps st1 @ [s]"
  shows "drop (length (steps st0)) (steps S) \<noteq> [] \<and> last (drop (length (steps st0)) (steps S)) = s"
proof -
  obtain a where "steps st1 = steps st0 @ a" using assms(1) by (auto simp: log_extends_def)
  then have "drop (length (steps st0)) (steps S) = a @ [s]" using assms(2) by simp
  then show ?thesis by simp
qed

lemma terminal_step:
  assumes d: "descend key T T [] (begin_call ty key st0) = (dr, st1)"
  shows "\<exists>st' new s. end_call st0 (record_step T kind desc hl None st1) = (st', new) \<and>
     tree_root st' = tree_root st0 \<and> nextNodeId st' = nextNodeId st0 \<and>
     new \<noteq> [] \<and> last new = s \<and> st_type s = kind \<and> st_description s = desc \<and>
     st_treeSnapshot s = snapshot T"
proof -
  let ?S = "record_step T kind desc hl None st1"
  obtain s where s: "steps ?S = steps st1 @ [s]" "st_type s = kind" "st_description s = desc"
    "st_treeSnapshot s = snapshot T"
    using steps_record_step[of T kind desc hl None st1] by blast
  have l: "log_extends st0 st1" using descend_log[OF d] by simp
  have n: "drop (length (steps st0)) (steps ?S) \<noteq> [] \<and> last (drop (length (steps st0)) (steps ?S)) = s"
    using new_steps_last[OF l s(1)] .
  obtain st' new where e: "end_call st0 ?S = (st', new)" by force
  have "tree_root st' = tree_root st0" "nextNodeId st' = nextNodeId st0"
    using e descend_state[OF d] tree_root_end_call[of st0 ?S] nextNodeId_end_call[of st0 ?S]
    by auto
  moreover have "new = drop (length (steps st0)) (steps st')"
    using e by (auto simp: end_call_def Let_def)
  moreover have "steps st' = steps ?S" using e steps_end_call[of st0 ?S] by simp
  ultimately show ?thesis using e n s by auto
qed

lemma insert_duplicate:
  assumes "sorted_wrt (<) (inorder_keys (tree_root st))" "key \<in> set (inorder_keys (tree_root st))"
  shows "\<exists>st' new. insert_rb key st = Inr (st', new) \<and> tree_root st' = tree_root st \<and>
     nextNodeId st' = nextNodeId st \<and> new \<noteq> [] \<and> st_type (last new) = FOUND \<and>
     st_description (last new) = ''already present'' \<and>
     st_treeSnapshot (last new) = snapshot (tree_root st)"
proof -
  let ?T = "tree_root st"
  obtain path n st1 where d: "descend key ?T ?T [] (begin_call ''INSERT'' key st) = (Reached path n, st1)"
    using descend_finds[OF assms] by blast
  have "insert_rb key st = Inr (end_call st (record_step ?T FOUND ''already present'' [n_id n] None st1))"
    using d by (simp add: insert_rb_def Let_def)
  then show ?thesis using terminal_step[OF d, of FOUND "''already present''" "[n_id n]"] by auto
qed

section \<open>Claims about the matrix-chain routines\<close>

text \<open>
  C6, as stated, fails: for every dimensions array \<open>p\<close> with \<open>n = p.length - 1 \<ge> 1\<close>
  the tables were to satisfy \<open>m[i][j] = min over i \<le> k < j\<close> of
  \<open>m[i][k] + m[k+1][j] + p[i-1] * p[k] * p[j]\<close> with \<open>s[i][j]\<close> a \<open>k\<close> attaining the
  minimum.  For the three dimensions \<open>2 ^ 342\<close> (a double, positive and not \<open>NaN\<close>)
  the product \<open>p[0] * p[1] * p[2]\<close> overflows to \<open>Infinity\<close>, the test
  \<open>cost < m[1][2]\<close> is \<open>Infinity < Infinity\<close>, and the code returns
  \<open>m[1][2] = Infinity\<close> with \<open>s[1][2] = 0\<close>, which is no \<open>k\<close> with \<open>1 \<le> k < 2\<close>.
\<close>

theorem matrixChainOrder_overflow_counterexample:
  "to_double (2 ^ 342) = Num (2 ^ 342) \<and>
   mc_m (matrixChainOrder [Num (2 ^ 342), Num (2 ^ 342), Num (2 ^ 342)]) ! 1 ! 2 = Infinity \<and>
   mc_s (matrixChainOrder [Num (2 ^ 342), Num (2 ^ 342), Num (2 ^ 342)]) ! 1 ! 2 = 0 \<and>
   \<not> 1 \<le> mc_s (matrixChainOrder [Num (2 ^ 342), Num (2 ^ 342), Num (2 ^ 342)]) ! 1 ! 2"
proof -
  have e: "(2 :: rat) ^ 342 = pow2 342" by (simp add: pow2_def)
  have d: "to_double (2 ^ 342) = Num (2 ^ 342)"
    unfolding e by (rule to_double_pow2) simp_all
  have c: "mc_m (matrixChainOrder [Num (2 ^ 342), Num (2 ^ 342), Num (2 ^ 342)]) ! 1 ! 2 = Infinity \<and>
      mc_s (matrixChainOrder [Num (2 ^ 342), Num (2 ^ 342), Num (2 ^ 342)]) ! 1 ! 2 = 0"
    by (rule overflow_cell[OF huge_product])
  show ?thesis using d c by simp
qed

text \<open>
  C6, amended.  For every array \<open>p\<close> of numbers, the tables returned by
  \<open>matrixChainOrder\<close> (both copies) satisfy the recurrence in double arithmetic:
  \<open>m[i][i] = 0\<close> for \<open>1 \<le> i \<le> n\<close>, and for \<open>1 \<le> i < j \<le> n\<close> no
  \<open>m[i][k] + m[k+1][j] + p[i-1] * p[k] * p[j]\<close> with \<open>i \<le> k < j\<close>, computed in
  doubles, is less than \<open>m[i][j]\<close>, and \<open>m[i][j]\<close> is that computed value at
  \<open>k = s[i][j]\<close> with \<open>i \<le> k < j\<close>, unless no computed value is less than
  \<open>Infinity\<close>, in which case \<open>m[i][j] = Infinity\<close> and \<open>s[i][j] = 0\<close>.  When the
  dimensions are integers \<open>0 \<le> p[i] \<le> M\<close> with \<open>n * M ^ 3 < 2 ^ 53\<close>, the tables
  satisfy the recurrence exactly: \<open>m[i][j]\<close> is the minimum over \<open>i \<le> k < j\<close> of
  \<open>m[i][k] + m[k+1][j] + p[i-1] * p[k] * p[j]\<close> over the integers and \<open>s[i][j]\<close> is a
  \<open>k\<close> with \<open>i \<le> k < j\<close> attaining it.
\<close>

theorem matrixChainOrder_recurrence:
  "dp_computed p (mc_m (matrixChainOrder p)) (mc_s (matrixChainOrder p)) \<and>
   dp_computed p (ms_m (matrixChainOrder_u p)) (ms_s (matrixChainOrder_u p)) \<and>
   (exact_dims d M \<longrightarrow>
      dp_exact d (mc_m (matrixChainOrder (dims d))) (mc_s (matrixChainOrder (dims d))) \<and>
      dp_exact d (ms_m (matrixChainOrder_u (dims d))) (ms_s (matrixChainOrder_u (dims d))))"
  using matrixChainOrder_dp[of p] matrixChainOrder_u_tables[of p]
    matrixChainOrder_exact[of d M] matrixChainOrder_u_tables[of "dims d"]
  by simp

theorem matrixChainOrder_recurrence_witness:
  "exact_dims [10, 30, 5, 60] 60 \<and>
   dp_computed (dims [10, 30, 5, 60]) (mc_m (matrixChainOrder (dims [10, 30, 5, 60])))
     (mc_s (matrixChainOrder (dims [10, 30, 5, 60]))) \<and>
   dp_exact [10, 30, 5, 60] (mc_m (matrixChainOrder (dims [10, 30, 5, 60])))
     (mc_s (matrixChainOrder (dims [10, 30, 5, 60]))) \<and>
   dp_exact [10, 30, 5, 60] (ms_m (matrixChainOrder_u (dims [10, 30, 5, 60])))
     (ms_s (matrixChainOrder_u (dims [10, 30, 5, 60]))) \<and>
   mc_opt [10, 30, 5, 60] 1 3 = 4500 \<and>
   mc_m (matrixChainOrder (dims [10, 30, 5, 60])) ! 1 ! 3 = Num 4500 \<and>
   mc_s (matrixChainOrder (dims [10, 30, 5, 60])) ! 1 ! 3 = 2"
proof -
  let ?d = "[10, 30, 5, 60] :: int list"
  let ?m = "mc_m (matrixChainOrder (dims ?d))" and ?s = "mc_s (matrixChainOrder (dims ?d))"
  have h: "exact_dims ?d 60" by (simp add: exact_dims_def)
  have r: "dp_computed (dims ?d) ?m ?s" "dp_exact ?d ?m ?s"
    "dp_exact ?d (ms_m (matrixChainOrder_u (dims ?d))) (ms_s (matrixChainOrder_u (dims ?d)))"
    using matrixChainOrder_recurrence[of "dims ?d" ?d 60] h by blast+
  have v: "mc_opt ?d 1 3 = 4500" "mc_opt ?d 1 1 = 0" "mc_opt ?d (1 + 1) 3 = 9000"
    by code_simp+
  have c: "1 \<le> (1 :: nat) \<and> (1 :: nat) < 3 \<and> 3 < length ?d" by simp
  have mv: "?m ! 1 ! 3 = Num (of_int (mc_opt ?d 1 3))"
    using r(2) c unfolding dp_exact_def by blast
  obtain k where k: "1 \<le> k" "k < 3" "?s ! 1 ! 3 = int k"
    "mc_opt ?d 1 3 = mc_opt ?d 1 k + mc_opt ?d (k + 1) 3 + ?d ! (1 - 1) * ?d ! k * ?d ! 3"
    using r(2) c unfolding dp_exact_def by blast
  have "k \<noteq> 1"
  proof
    assume "k = 1"
    then have "mc_opt ?d 1 3 = mc_opt ?d 1 1 + mc_opt ?d (1 + 1) 3 + ?d ! (1 - 1) * ?d ! 1 * ?d ! 3"
      using k(4) by simp
    then show False unfolding v by simp
  qed
  then have "k = 2" using k(1,2) by simp
  then have sv: "?s ! 1 ! 3 = 2" using k(3) by simp
  show ?thesis using h r v(1) mv sv by simp
qed

text \<open>
  C10. The two \<open>matrixChainOrder\<close> implementations agree: for every dimensions array
  the \<open>m\<close> tables are equal and the \<open>s\<close> tables are equal; the version in
  src/core/MatrixChain.ts additionally reports \<open>minCost = m[1][n]\<close> when \<open>n > 0\<close>
  and \<open>0\<close> otherwise (\<open>n = p.length - 1\<close>).
\<close>

theorem matrixChainOrder_versions_agree:
  "mc_m (matrixChainOrder p) = ms_m (matrixChainOrder_u p) \<and>
   mc_s (matrixChainOrder p) = ms_s (matrixChainOrder_u p) \<and>
   minCost (matrixChainOrder p) =
     (if int (length p) - 1 > 0 then mc_m (matrixChainOrder p) ! 1 ! (length p - 1) else Num 0)"
proof -
  have "minCost (matrixChainOrder p) =
     (if int (length p) - 1 > 0 then mc_m (matrixChainOrder p) ! 1 ! (length p - 1) else Num 0)"
    by (simp add: matrixChainOrder_def Let_def split: prod.splits)
  then show ?thesis using matrixChainOrder_u_tables[of p] by simp
qed

section \<open>Claims about the layout functions\<close>

text \<open>
  C8. For every width and height, both layout functions applied to a \<open>null\<close> snapshot
  return an empty node list and an empty edge list.
\<close>

theorem computeTreeLayout_null:
  "lay_nodes (computeTreeLayout Null w h) = [] \<and> lay_edges (computeTreeLayout Null w h) = [] \<and>
   tl_nodes (computeTreeLayout_t Null w h) = [] \<and> tl_edges (computeTreeLayout_t Null w h) = []"
  by (simp add: computeTreeLayout_def computeTreeLayout_t_def)

text \<open>
  C9, as stated, for the \<open>Layout\<close> module: every returned edge would be a pair
  (id of a node, id of its left or right child).  For a snapshot with the single node
  of id 1 there is no such pair, yet two edges are returned, to the NIL placeholders
  \<open>-11\<close> and \<open>-12\<close>.
\<close>

theorem layout_edges_counterexample:
  "lay_edges (computeTreeLayout (RBNode 1 10 BLACK Null Null None) 1000 500) = [(1, -11), (1, -12)]
   \<and> pc_pairs (RBNode 1 10 BLACK Null Null None) = []"
  by (simp add: computeTreeLayout_def Let_def node_edges_def child_edge_def)

text \<open>
  C9, amended.  The in-order \<open>TreeLayout\<close> module returns exactly the parent-to-child
  pairs of the snapshot, each once.  The \<open>Layout\<close> module, on a snapshot whose node ids
  are positive, returns for every node one edge per child slot, left then right: to the
  id of the real child if there is one, otherwise to the placeholder id
  \<open>-(10 * id + 1)\<close> or \<open>-(10 * id + 2)\<close>; its edges with a positive target are
  exactly the parent-to-child pairs, each once.
\<close>

theorem layout_edges_parent_child:
  "mset (tl_edges (computeTreeLayout_t t w h)) = mset (pc_pairs t) \<and>
   (ids_positive t \<longrightarrow>
      lay_edges (computeTreeLayout t w h) = slot_pairs t \<and>
      filter (\<lambda>e. 0 < snd e) (lay_edges (computeTreeLayout t w h)) = pc_pairs t)"
  using computeTreeLayout_t_edges[of t w h] computeTreeLayout_edges[of t w h]
    filter_slot_pairs[of t]
  by simp

theorem layout_edges_parent_child_witness:
  "ids_positive (RBNode 2 20 BLACK (RBNode 1 10 RED Null Null (Some 2))
                   (RBNode 3 30 RED Null Null (Some 2)) None) \<and>
   lay_edges (computeTreeLayout (RBNode 2 20 BLACK (RBNode 1 10 RED Null Null (Some 2))
                   (RBNode 3 30 RED Null Null (Some 2)) None) 1000 500)
     = [(2, 1), (2, 3), (1, -11), (1, -12), (3, -31), (3, -32)] \<and>
   mset (tl_edges (computeTreeLayout_t (RBNode 2 20 BLACK (RBNode 1 10 RED Null Null (Some 2))
                   (RBNode 3 30 RED Null Null (Some 2)) None) 1000 500))
     = {#(2, 1), (2, 3)#}"
  using layout_edges_parent_child[of "RBNode 2 20 BLACK (RBNode 1 10 RED Null Null (Some 2))
                   (RBNode 3 30 RED Null Null (Some 2)) None" 1000 500]
  by simp

section \<open>Claims about the parenthesisation trees\<close>

text \<open>
  C7, as stated, for the module unnamed/part_004: two calls of \<open>buildParenthesisTree\<close> with
  equal arguments would return equal trees, ids included.  Two calls for the single
  matrix \<open>A1\<close>, made one after the other, return the ids \<open>n1\<close> and \<open>n2\<close>.
\<close>

theorem buildParenthesisTree_ids_counterexample:
  "two_calls_u 1 [] 1 1 0 =
     (Inr (TreeNode ''n1'' ''A1'' None None), Inr (TreeNode ''n2'' ''A1'' None None)) \<and>
   fst (two_calls_u 1 [] 1 1 0) \<noteq> snd (two_calls_u 1 [] 1 1 0)"
  by (simp add: two_calls_u_def nextId_def show_int_def show_nat.simps)

text \<open>
  C7, amended.  In the module unnamed/part_004 two calls with equal arguments, one after the
  other, fail alike or return trees of equal shape and labels; a call made when the
  module counter is \<open>c\<close> numbers its nodes \<open>n(c+1)\<close>, \<open>n(c+2)\<close>, ... in post-order
  and leaves the counter advanced by the number of nodes, so the ids of the two calls
  differ.  In src/core/MatrixChain.ts a call without \<open>idCounter\<close> numbers its nodes
  \<open>0, 1, ...\<close> in pre-order, whatever was called before; a call that is given a
  counter object numbers from the value the object holds.
\<close>

theorem buildParenthesisTree_calls:
  "map_sum (\<lambda>e. e) erase_ids (fst (two_calls_u f s i j c)) =
     map_sum (\<lambda>e. e) erase_ids (snd (two_calls_u f s i j c)) \<and>
   (\<forall>t c'. buildParenthesisTree_u f s i j c = (Inr t, c') \<longrightarrow>
      post_ids t = map (\<lambda>k. ''n'' @ show_nat k) [c + 1 ..< c + 1 + node_count t] \<and>
      c' = c + node_count t) \<and>
   (\<forall>t. buildParenthesisTree_default f s i j = Inr t \<longrightarrow> pre_ids t = [0 ..< node_count t]) \<and>
   (\<forall>t c'. buildParenthesisTree f s i j c = (Inr t, c') \<longrightarrow>
      pre_ids t = [c ..< c + node_count t] \<and> c' = c + node_count t)"
proof -
  obtain r1 c1 where a: "buildParenthesisTree_u f s i j c = (r1, c1)" by force
  have "map_sum (\<lambda>e. e) erase_ids (fst (two_calls_u f s i j c)) = shape ''-'' f s i j"
    using a shape_u[of f s i j c] by (simp add: two_calls_u_def)
  moreover have "map_sum (\<lambda>e. e) erase_ids (snd (two_calls_u f s i j c)) = shape ''-'' f s i j"
    using a shape_u[of f s i j c1] by (simp add: two_calls_u_def)
  moreover have "pre_ids t = [0 ..< node_count t]"
    if h: "buildParenthesisTree_default f s i j = Inr t" for t
  proof -
    obtain c' where "buildParenthesisTree f s i j 0 = (Inr t, c')"
      using h
      by (cases "buildParenthesisTree f s i j 0") (auto simp: buildParenthesisTree_default_def)
    then show ?thesis using ids_ts[of f s i j 0 t c'] by simp
  qed
  ultimately show ?thesis using ids_u[of f s i j c] ids_ts[of f s i j c] by auto
qed

theorem buildParenthesisTree_calls_witness:
  "buildParenthesisTree_u 3 [[0, 0, 0], [0, 0, 1], [0, 0, 0]] 1 2 0 =
     (Inr (TreeNode ''n3'' ''(1-2)'' (Some (TreeNode ''n1'' ''A1'' None None))
             (Some (TreeNode ''n2'' ''A2'' None None))), 3) \<and>
   post_ids (TreeNode ''n3'' ''(1-2)'' (Some (TreeNode ''n1'' ''A1'' None None))
             (Some (TreeNode ''n2'' ''A2'' None None))) = [''n1'', ''n2'', ''n3''] \<and>
   buildParenthesisTree_default 3 [[0, 0, 0], [0, 0, 1], [0, 0, 0]] 1 2 =
     Inr (TreeNode 0 ''(1,2)'' (Some (TreeNode 1 ''A1'' None None))
            (Some (TreeNode 2 ''A2'' None None))) \<and>
   pre_ids (TreeNode 0 ''(1,2)'' (Some (TreeNode (1::nat) ''A1'' None None))
            (Some (TreeNode 2 ''A2'' None None))) = [0, 1, 2]"
proof -
  let ?s = "[[0, 0, 0], [0, 0, 1], [0, 0, 0 :: int]]"
  let ?T = "TreeNode ''n3'' ''(1-2)'' (Some (TreeNode ''n1'' ''A1'' None None))
             (Some (TreeNode ''n2'' ''A2'' None None))"
  let ?T' = "TreeNode 0 ''(1,2)'' (Some (TreeNode (1::nat) ''A1'' None None))
            (Some (TreeNode 2 ''A2'' None None))"
  have u: "buildParenthesisTree_u 3 ?s 1 2 0 = (Inr ?T, 3)"
    by code_simp
  have d: "buildParenthesisTree_default 3 ?s 1 2 = Inr ?T'"
    by code_simp
  have e: "map (\<lambda>k. ''n'' @ show_nat k) [0 + 1 ..< 0 + 1 + node_count ?T] = [''n1'', ''n2'', ''n3'']"
    by code_simp
  have e': "[0 ..< node_count ?T'] = [0, 1, 2]"
    by code_simp
  note inst = buildParenthesisTree_calls[of 3 ?s 1 2 0]
  from inst u have "post_ids ?T = map (\<lambda>k. ''n'' @ show_nat k) [0 + 1 ..< 0 + 1 + node_count ?T]"
    by blast
  then have p: "post_ids ?T = [''n1'', ''n2'', ''n3'']" by (simp only: e)
  from inst d have "pre_ids ?T' = [0 ..< node_count ?T']" by blast
  then have q: "pre_ids ?T' = [0, 1, 2]" by (simp only: e')
  show ?thesis using u d p q by blast
qed

section \<open>Claims about the Red-Black tree engine\<close>

text \<open>
  C1. For every sequence of insert calls on an initially empty tree, after each call
  (that is, after every prefix of the sequence) the call has returned and the live tree
  satisfies the five Red-Black invariants: the root is BLACK or the tree is empty, NIL
  is BLACK, no RED node has a RED child, every path from a node to a descendant NIL
  has the same number of BLACK nodes, and the in-order key sequence is strictly
  increasing.
\<close>

theorem insert_keeps_invariants:
  "\<exists>st. insert_all (take n ks) init_state = Inr st \<and> rb_invariants (tree_root st)"
  using insert_all_ok[OF rb_ok_init, of "take n ks"] rb_ok_invariants by blast

theorem insert_keeps_invariants_witness:
  "insert_all (take 3 [10, 20, 30, 40]) init_state \<noteq> Inl InvariantViolation \<and>
   (\<exists>st. insert_all (take 3 [10, 20, 30, 40]) init_state = Inr st \<and> rb_invariants (tree_root st))"
  using insert_keeps_invariants[of 3 "[10, 20, 30, 40]"] by auto

text \<open>
  C2. Starting from an empty tree, insert(10), insert(20), insert(30) performs exactly
  one rotation, a left rotation, and yields the root 20 BLACK with left child 10 RED
  and right child 30 RED.
\<close>

theorem insert_10_20_30:
  "(case insert_all [10, 20, 30] init_state of
      Inl e \<Rightarrow> None
    | Inr st \<Rightarrow> Some (tree_root st, rotations st)) =
   Some (Node 2 20 BLACK (Node 1 10 RED NIL NIL) (Node 3 30 RED NIL NIL), [ROTATE_LEFT])"
  by code_simp

text \<open>
  C4. Inserting a key that is already in the tree (a tree whose in-order keys are
  strictly increasing) returns, creates no node, leaves the tree as it is, and returns
  a non-empty step list whose last step is the FOUND step "already present", taken on
  the unchanged tree.
\<close>

theorem duplicate_insert_idempotent:
  "sorted_wrt (<) (inorder_keys (tree_root st)) \<Longrightarrow> key \<in> set (inorder_keys (tree_root st)) \<Longrightarrow>
   \<exists>st' new. insert_rb key st = Inr (st', new) \<and> tree_root st' = tree_root st \<and>
     nextNodeId st' = nextNodeId st \<and> new \<noteq> [] \<and> st_type (last new) = FOUND \<and>
     st_description (last new) = ''already present'' \<and>
     st_treeSnapshot (last new) = snapshot (tree_root st)"
  by (rule insert_duplicate)

theorem duplicate_insert_idempotent_witness:
  "sorted_wrt (<) (inorder_keys (tree_root (fst (projr (insert_rb 10 init_state))))) \<and>
   10 \<in> set (inorder_keys (tree_root (fst (projr (insert_rb 10 init_state))))) \<and>
   (\<exists>st' new. insert_rb 10 (fst (projr (insert_rb 10 init_state))) = Inr (st', new) \<and>
      tree_root st' = Node 1 10 BLACK NIL NIL \<and> st_type (last new) = FOUND)"
proof -
  let ?s = "fst (projr (insert_rb 10 init_state))"
  have a: "sorted_wrt (<) (inorder_keys (tree_root ?s))" by code_simp
  have b: "10 \<in> set (inorder_keys (tree_root ?s))" by code_simp
  have c: "tree_root ?s = Node 1 10 BLACK NIL NIL" by code_simp
  show ?thesis using duplicate_insert_idempotent[OF a b] a b c by auto
qed

end
